theory Spec2Isabelle
  imports Main
begin

section \<open>The process handle of \<^verbatim>\<open>app.go\<close>\<close>

text \<open>
  The Go type \<^verbatim>\<open>App\<close> bundles arguments, environment, a cancellable context, the
  standard streams, an exit hook and two lazily created resources (a logger and an error
  channel). The logger and the channel are heap objects, shared by reference; they are
  modelled by addresses into two stores, so that reference equality is equality of
  addresses and an object keeps its state after the handle has dropped its reference.

  A Go \<^verbatim>\<open>error\<close> is an interface value; \<^verbatim>\<open>nil\<close> is \<open>None\<close>.
\<close>

type_synonym addr = nat

type_synonym error = "string option"

text \<open>
  \<^verbatim>\<open>context.Context\<close>: only \<^verbatim>\<open>Done()\<close> is used by the code. The flag says
  whether the channel returned by \<^verbatim>\<open>Done()\<close> has been closed. The handle is taken
  to carry a context, as \<^verbatim>\<open>New\<close> and every constructor in the tests provide one.
\<close>

datatype ctx = Ctx (cancelled: bool)

text \<open>
  What a call of the \<^verbatim>\<open>ExitHandler\<close> does, seen from \<^verbatim>\<open>Exit\<close>: it comes back,
  it panics with a value, or it never returns control (\<^verbatim>\<open>os.Exit\<close> ends the process).
  The handler gets the status code only.
\<close>

datatype handler_result = Returns | Panics string | NoReturn

text \<open>
  The fields of \<^verbatim>\<open>App\<close>. Of the three streams the code only asks whether
  \<^verbatim>\<open>a.Stderr == os.Stderr\<close>. \<open>loggerMu\<close> says whether the mutex of the logger is
  held. The mutex of the channel is taken and released inside \<^verbatim>\<open>ensureErrorChannel\<close>
  (a deferred unlock), so it is free between any two calls and is no part of the state;
  \<^verbatim>\<open>Exit\<close> can leave \<open>loggerMu\<close> held.
\<close>

record App =
  Arguments :: "string list"
  Environment :: "string list"
  Context :: ctx
  StderrIsOsStderr :: bool
  ExitHandler :: "(int \<Rightarrow> handler_result) option"
  loggerMu :: bool
  logger :: "addr option"
  errch :: "addr option"

section \<open>\<^verbatim>\<open>LookupEnv\<close>: the concurrent search\<close>

text \<open>
  \<^verbatim>\<open>strings.SplitN(line, "=", 2)\<close>: the text before the first \<^verbatim>\<open>=\<close> and the rest after
  it, or the line alone when it holds no \<^verbatim>\<open>=\<close>.
\<close>

definition SplitN2 :: "string \<Rightarrow> string list" where
  "SplitN2 line =
     (if CHR ''='' \<in> set line
      then [takeWhile (\<lambda>c. c \<noteq> CHR ''='') line, tl (dropWhile (\<lambda>c. c \<noteq> CHR ''='') line)]
      else [line])"

text \<open>
  The test of a worker, \<^verbatim>\<open>len(slice) == 2 && slice[0] == key\<close>, and the value
  \<^verbatim>\<open>slice[1]\<close> it sends when the test holds.
\<close>

definition entry_match :: "string \<Rightarrow> string \<Rightarrow> string option" where
  "entry_match key line =
     (case SplitN2 line of
        [k, v] \<Rightarrow> if k = key then Some v else None
      | _ \<Rightarrow> None)"

text \<open>
  One goroutine per environment entry. A worker holds the line it captured and is
  \<^item> \<open>Ready\<close>: started, before its \<^verbatim>\<open>select\<close>;
  \<^item> \<open>Sending v\<close>: blocked in \<^verbatim>\<open>ch <- slice[1]\<close> on the unbuffered channel;
  \<^item> \<open>Exiting\<close>: returning, the deferred \<^verbatim>\<open>wg.Done()\<close> still to run;
  \<^item> \<open>Finished\<close>.
\<close>

datatype wstatus = Ready | Sending string | Exiting | Finished

text \<open>
  The supervising goroutine: blocked in \<^verbatim>\<open>wg.Wait()\<close>, past it with the deferred
  \<^verbatim>\<open>close(ch)\<close> still to run, or finished.
\<close>

datatype cstatus = Waiting | Closing | Closed

record lookup =
  handle :: App
  key :: string
  workers :: "(string \<times> wstatus) list"
  wg :: int
  ch_closed :: bool
  closer :: cstatus
  result :: "(string \<times> bool) option"
  panicked :: "string option"

text \<open>
  The state when \<^verbatim>\<open>LookupEnv\<close> reaches its receive: the channel is made,
  \<^verbatim>\<open>wg.Add(len(a.Environment))\<close> has run, the spawning and the supervising goroutine
  are started and no worker exists yet.
\<close>

definition LookupEnv_init :: "App \<Rightarrow> string \<Rightarrow> lookup" where
  "LookupEnv_init a k =
     \<lparr>handle = a, key = k, workers = [], wg = int (length (Environment a)),
      ch_closed = False, closer = Waiting, result = None, panicked = None\<rparr>"

text \<open>
  The atomic steps of the goroutines, and \<open>Cancel\<close> for the owner of the context
  cancelling it while the search runs.
  \<^item> \<open>Spawn\<close>: the spawning loop starts the worker of the next entry;
  \<^item> \<open>Select i\<close>: worker \<open>i\<close> runs its \<^verbatim>\<open>select\<close>;
  \<^item> \<open>Transfer i\<close>: the send of worker \<open>i\<close> meets the receive of the caller;
  \<^item> \<open>Done i\<close>: the deferred \<^verbatim>\<open>wg.Done()\<close> of worker \<open>i\<close>;
  \<^item> \<open>WaitReturn\<close>: \<^verbatim>\<open>wg.Wait()\<close> returns;
  \<^item> \<open>Close\<close>: the deferred \<^verbatim>\<open>close(ch)\<close>;
  \<^item> \<open>RecvClosed\<close>: the receive of the caller on the closed channel.
\<close>

datatype action = Cancel | Spawn | Select nat | Transfer nat | Done nat
  | WaitReturn | Close | RecvClosed

definition set_worker :: "nat \<Rightarrow> wstatus \<Rightarrow> lookup \<Rightarrow> lookup" where
  "set_worker i st s = s\<lparr>workers := (workers s)[i := (fst (workers s ! i), st)]\<rparr>"

text \<open>
  \<open>step act s\<close> is \<open>None\<close> when \<open>act\<close> cannot happen in \<open>s\<close> (the goroutine is not
  there, is blocked, or the process has panicked). A panic of a goroutine is a step into
  a state with \<open>panicked\<close> set.
\<close>

fun step :: "action \<Rightarrow> lookup \<Rightarrow> lookup option" where
  "step Cancel s =
     (if panicked s \<noteq> None \<or> cancelled (Context (handle s)) then None
      else Some (s\<lparr>handle := (handle s)\<lparr>Context := Ctx True\<rparr>\<rparr>))"
| "step Spawn s =
     (if panicked s \<noteq> None then None
      else if length (workers s) < length (Environment (handle s))
      then Some (s\<lparr>workers := workers s @ [(Environment (handle s) ! length (workers s), Ready)]\<rparr>)
      else None)"
| "step (Select i) s =
     (if panicked s \<noteq> None \<or> \<not> i < length (workers s) then None
      else case workers s ! i of
        (line, Ready) \<Rightarrow>
          if cancelled (Context (handle s)) then Some (set_worker i Exiting s)
          else (case entry_match (key s) line of
                  Some v \<Rightarrow> Some (set_worker i (Sending v) s)
                | None \<Rightarrow> Some (set_worker i Exiting s))
      | _ \<Rightarrow> None)"
| "step (Transfer i) s =
     (if panicked s \<noteq> None \<or> \<not> i < length (workers s) then None
      else case workers s ! i of
        (line, Sending v) \<Rightarrow>
          if ch_closed s then Some (s\<lparr>panicked := Some ''send on closed channel''\<rparr>)
          else if result s = None
          then Some ((set_worker i Exiting s)\<lparr>result := Some (v, True)\<rparr>)
          else None
      | _ \<Rightarrow> None)"
| "step (Done i) s =
     (if panicked s \<noteq> None \<or> \<not> i < length (workers s) then None
      else case workers s ! i of
        (line, Exiting) \<Rightarrow>
          if wg s - 1 < 0 then Some (s\<lparr>panicked := Some ''sync: negative WaitGroup counter''\<rparr>)
          else Some ((set_worker i Finished s)\<lparr>wg := wg s - 1\<rparr>)
      | _ \<Rightarrow> None)"
| "step WaitReturn s =
     (if panicked s \<noteq> None then None
      else if closer s = Waiting \<and> wg s = 0 then Some (s\<lparr>closer := Closing\<rparr>)
      else None)"
| "step Close s =
     (if panicked s \<noteq> None then None
      else if closer s = Closing
      then (if ch_closed s then Some (s\<lparr>panicked := Some ''close of closed channel''\<rparr>)
            else Some (s\<lparr>ch_closed := True, closer := Closed\<rparr>))
      else None)"
| "step RecvClosed s =
     (if panicked s \<noteq> None then None
      else if result s = None \<and> ch_closed s then Some (s\<lparr>result := Some ('''', False)\<rparr>)
      else None)"

text \<open>An execution is a list of steps, each possible where it is taken.\<close>

fun run :: "action list \<Rightarrow> lookup \<Rightarrow> lookup option" where
  "run [] s = Some s"
| "run (act # acts) s = (case step act s of None \<Rightarrow> None | Some s' \<Rightarrow> run acts s')"

text \<open>
  A bound on the steps still to come: the steps each goroutine has left, one for the
  receive of the caller, one for the cancellation and one for a panic.
\<close>

fun wrank :: "wstatus \<Rightarrow> nat" where
  "wrank Ready = 3" | "wrank (Sending v) = 2" | "wrank Exiting = 1" | "wrank Finished = 0"

fun crank :: "cstatus \<Rightarrow> nat" where
  "crank Waiting = 2" | "crank Closing = 1" | "crank Closed = 0"

definition work_left :: "(string \<times> wstatus) list \<Rightarrow> nat" where
  "work_left ws = sum_list (map (\<lambda>w. wrank (snd w)) ws)"

definition steps_left :: "lookup \<Rightarrow> nat" where
  "steps_left s =
     4 * (length (Environment (handle s)) - length (workers s)) + work_left (workers s)
     + crank (closer s) + (if result s = None then 1 else 0)
     + (if cancelled (Context (handle s)) then 0 else 1)
     + (if panicked s = None then 1 else 0)"

text \<open>The workers whose \<^verbatim>\<open>wg.Done()\<close> has not run.\<close>

definition unfinished :: "(string \<times> wstatus) list \<Rightarrow> nat" where
  "unfinished ws = length (filter (\<lambda>w. snd w \<noteq> Finished) ws)"

text \<open>
  What holds in every state of the search for key \<open>k\<close> in the environment \<open>env\<close>:
  nothing has panicked; the workers are those of a prefix of the list; the counter of the
  wait group is the number of workers not yet started or not yet done; the supervisor
  passes \<^verbatim>\<open>wg.Wait()\<close> only at zero and the channel is closed only by it; a worker sends
  only the value of its matching entry; and the caller has received either such a value
  or the closing of the channel.
\<close>

definition lookup_inv :: "string list \<Rightarrow> string \<Rightarrow> lookup \<Rightarrow> bool" where
  "lookup_inv env k s \<longleftrightarrow>
     Environment (handle s) = env \<and> key s = k \<and> panicked s = None \<and>
     length (workers s) \<le> length env \<and>
     map fst (workers s) = take (length (workers s)) env \<and>
     wg s = int (length env - length (workers s)) + int (unfinished (workers s)) \<and>
     (closer s \<noteq> Waiting \<longrightarrow> wg s = 0) \<and>
     (ch_closed s \<longleftrightarrow> closer s = Closed) \<and>
     (\<forall>l v. (l, Sending v) \<in> set (workers s) \<longrightarrow> entry_match k l = Some v) \<and>
     (\<forall>r. result s = Some r \<longrightarrow>
        (r = ('''', False) \<and> ch_closed s) \<or>
        (snd r \<and> fst r \<in> set (List.map_filter (entry_match k) env)))"

text \<open>
  The words of the specification, for the statements about \<^verbatim>\<open>LookupEnv\<close>: an entry
  \<^verbatim>\<open>KEY=VALUE\<close> has the key portion before its first \<^verbatim>\<open>=\<close> and the value after it; an
  entry without \<^verbatim>\<open>=\<close> is malformed and has neither.
\<close>

definition spec_entry :: "string \<Rightarrow> (string \<times> string) option" where
  "spec_entry line =
     (if CHR ''='' \<in> set line
      then Some (takeWhile (\<lambda>c. c \<noteq> CHR ''='') line, tl (dropWhile (\<lambda>c. c \<noteq> CHR ''='') line))
      else None)"

text \<open>Runs without cancellation: a matching worker ends only after its value was received.\<close>

definition delivered_inv :: "string \<Rightarrow> lookup \<Rightarrow> bool" where
  "delivered_inv k s \<longleftrightarrow>
     \<not> cancelled (Context (handle s)) \<and> key s = k \<and>
     (\<forall>l st. (l, st) \<in> set (workers s) \<and> entry_match k l \<noteq> None \<and> (st = Exiting \<or> st = Finished)
        \<longrightarrow> (\<exists>v. result s = Some (v, True)))"

text \<open>Runs under a cancelled context: no worker ever sends.\<close>

definition cancelled_inv :: "lookup \<Rightarrow> bool" where
  "cancelled_inv s \<longleftrightarrow>
     cancelled (Context (handle s)) \<and> (\<forall>l v. (l, Sending v) \<notin> set (workers s)) \<and>
     (\<forall>r. result s = Some r \<longrightarrow> r = ('''', False))"

text \<open>\<^verbatim>\<open>fmt.Sprintf("%d", i)\<close>, for the exit handler of the tests.\<close>

function decimal :: "nat \<Rightarrow> string" where
  "decimal n =
     (if n < 10 then [''0123456789'' ! n]
      else decimal (n div 10) @ [''0123456789'' ! (n mod 10)])"
  by pat_completeness auto
termination
  by (relation "measure (\<lambda>n. n)") auto
declare decimal.simps [simp del]

definition Sprintf_d :: "int \<Rightarrow> string" where
  "Sprintf_d i = (if i < 0 then CHR ''-'' # decimal (nat (- i)) else decimal (nat i))"

text \<open>
  \<^verbatim>\<open>newApp\<close> of \<^verbatim>\<open>app_test.go\<close>: a background context, buffers for the streams, and an
  exit handler that panics with \<^verbatim>\<open>"system exit <code>"\<close>.
\<close>

definition newApp :: "string list \<Rightarrow> string list \<Rightarrow> App" where
  "newApp environ args =
     \<lparr>Arguments = args, Environment = environ, Context = Ctx False, StderrIsOsStderr = False,
      ExitHandler = Some (\<lambda>code. Panics (''system exit '' @ Sprintf_d code)), loggerMu = False,
      logger = None, errch = None\<rparr>"

section \<open>The heap: loggers and channels\<close>

text \<open>
  \<^verbatim>\<open>gomol.Base\<close> is a library type. The model keeps what \<^verbatim>\<open>app.go\<close> asks of it:
  \<^verbatim>\<open>IsInitialized()\<close> reads a flag that \<^verbatim>\<open>InitLoggers()\<close> sets and a successful
  \<^verbatim>\<open>ShutdownLoggers()\<close> clears; \<^verbatim>\<open>ShutdownLoggers()\<close> returns an error or \<^verbatim>\<open>nil\<close>.
  Which one it returns depends on the sinks attached to the logger, so it is a field of
  the object: \<open>shutdownErr\<close>. \<open>timestamped\<close> records whether the template of the
  console sink starts with the timestamp.
\<close>

record base =
  isInitialized :: bool
  timestamped :: bool
  shutdownErr :: error

text \<open>A Go channel of errors: the queued values, \<^verbatim>\<open>cap(ch)\<close>, and whether it is closed.\<close>

record chan =
  buffer :: "error list"
  capacity :: nat
  isClosed :: bool

text \<open>
  The handle with the objects it can point to. \<open>allocated\<close> counts the objects made so
  far; the next object gets that number as its address.
\<close>

record world =
  app :: App
  bases :: "addr \<Rightarrow> base"
  chans :: "addr \<Rightarrow> chan"
  allocated :: nat

datatype panic_value = ErrorValue string | StringValue string

text \<open>How a call ends: it returns, it panics, or it blocks and never returns.\<close>

datatype call = Return | Panic panic_value | Block

section \<open>\<^verbatim>\<open>Logger\<close>\<close>

text \<open>
  The body of \<^verbatim>\<open>Logger\<close> between \<^verbatim>\<open>Lock\<close> and the deferred \<^verbatim>\<open>Unlock\<close>. The errors
  of the library calls are discarded by the code; the model takes \<^verbatim>\<open>InitLoggers\<close> to set
  the flag. A new logger has the console sink only, whose shutdown reports no error.
\<close>

definition Logger_locked :: "world \<Rightarrow> addr \<times> world" where
  "Logger_locked w =
     (case logger (app w) of
        None \<Rightarrow>
          let p = allocated w;
              b = \<lparr>isInitialized = True, timestamped = StderrIsOsStderr (app w),
                   shutdownErr = None\<rparr>
          in (p, w\<lparr>app := (app w)\<lparr>logger := Some p\<rparr>, bases := (bases w)(p := b),
                    allocated := Suc p\<rparr>)
      | Some p \<Rightarrow> (p, w))"

text \<open>A call of \<^verbatim>\<open>Logger\<close> with no other call in progress; it blocks when the mutex is held.\<close>

definition Logger :: "world \<Rightarrow> (addr \<times> world) option" where
  "Logger w = (if loggerMu (app w) then None else Some (Logger_locked w))"

section \<open>\<^verbatim>\<open>Exit\<close>\<close>

text \<open>
  What \<^verbatim>\<open>Exit\<close> does to the world outside the handle, in order. \<open>HandlerCalled code l\<close>
  is the call \<^verbatim>\<open>a.ExitHandler(code)\<close>, made while the field \<^verbatim>\<open>a.logger\<close> holds \<open>l\<close>.
\<close>

datatype event = ShutdownLoggers addr | HandlerCalled int "addr option" | HandlerReturned
  | OsExit int

text \<open>
  How \<^verbatim>\<open>Exit\<close> ends: \<^verbatim>\<open>os.Exit\<close> ended the process, a panic, the handler kept control,
  or the call blocked on the mutex.
\<close>

datatype exit_outcome = Terminated int | ExitPanic panic_value | HandlerKept | ExitBlocked

text \<open>The first half of \<^verbatim>\<open>Exit\<close>, under the mutex: \<open>Inl\<close> is the panic of a failed shutdown.\<close>

definition Exit_teardown :: "world \<Rightarrow> (panic_value \<times> event list \<times> world) + (event list \<times> world)" where
  "Exit_teardown w =
     (let w1 = w\<lparr>app := (app w)\<lparr>loggerMu := True\<rparr>\<rparr> in
      case logger (app w) of
        Some p \<Rightarrow>
          if isInitialized (bases w p)
          then (case shutdownErr (bases w p) of
                  Some err \<Rightarrow> Inl (ErrorValue err, [ShutdownLoggers p], w1)
                | None \<Rightarrow>
                    Inr ([ShutdownLoggers p],
                         w\<lparr>app := (app w)\<lparr>logger := None, loggerMu := False\<rparr>,
                           bases := (bases w)(p := (bases w p)\<lparr>isInitialized := False\<rparr>)\<rparr>))
          else Inr ([], w\<lparr>app := (app w)\<lparr>logger := None, loggerMu := False\<rparr>\<rparr>)
      | None \<Rightarrow> Inr ([], w\<lparr>app := (app w)\<lparr>loggerMu := False\<rparr>\<rparr>))"

definition Exit :: "int \<Rightarrow> world \<Rightarrow> exit_outcome \<times> event list \<times> world" where
  "Exit code w =
     (if loggerMu (app w) then (ExitBlocked, [], w)
      else case Exit_teardown w of
        Inl (v, evs, w') \<Rightarrow> (ExitPanic v, evs, w')
      | Inr (evs, w') \<Rightarrow>
          (case ExitHandler (app w') of
             None \<Rightarrow> (Terminated code, evs @ [OsExit code], w')
           | Some h \<Rightarrow>
               (case h code of
                  Returns \<Rightarrow>
                    (ExitPanic (StringValue ''exit handler returned''),
                     evs @ [HandlerCalled code (logger (app w')), HandlerReturned], w')
                | Panics v \<Rightarrow>
                    (ExitPanic (StringValue v), evs @ [HandlerCalled code (logger (app w'))], w')
                | NoReturn \<Rightarrow>
                    (HandlerKept, evs @ [HandlerCalled code (logger (app w'))], w'))))"

section \<open>The error channel\<close>

definition ensureErrorChannel :: "world \<Rightarrow> world" where
  "ensureErrorChannel w =
     (case errch (app w) of
        None \<Rightarrow>
          let c = allocated w
          in w\<lparr>app := (app w)\<lparr>errch := Some c\<rparr>,
               chans := (chans w)(c := \<lparr>buffer = [], capacity = 1, isClosed = False\<rparr>),
               allocated := Suc c\<rparr>
      | Some c \<Rightarrow> w)"

text \<open>\<^verbatim>\<open>Errors\<close> returns the field \<^verbatim>\<open>a.errch\<close>, a channel that may be \<^verbatim>\<open>nil\<close> by its type.\<close>

definition Errors :: "world \<Rightarrow> addr option \<times> world" where
  "Errors w = (let w' = ensureErrorChannel w in (errch (app w'), w'))"

text \<open>
  \<^verbatim>\<open>ch <- v\<close> with no receiver waiting: a panic on a closed channel, the value queued
  when the buffer has room, blocked otherwise.
\<close>

definition send :: "addr \<Rightarrow> error \<Rightarrow> world \<Rightarrow> call \<times> world" where
  "send c v w =
     (let ch = chans w c in
      if isClosed ch then (Panic (ErrorValue ''send on closed channel''), w)
      else if length (buffer ch) < capacity ch
      then (Return, w\<lparr>chans := (chans w)(c := ch\<lparr>buffer := buffer ch @ [v]\<rparr>)\<rparr>)
      else (Block, w))"

definition close_chan :: "addr \<Rightarrow> world \<Rightarrow> call \<times> world" where
  "close_chan c w =
     (let ch = chans w c in
      if isClosed ch then (Panic (ErrorValue ''close of closed channel''), w)
      else (Return, w\<lparr>chans := (chans w)(c := ch\<lparr>isClosed := True\<rparr>)\<rparr>))"

text \<open>Sending on a \<^verbatim>\<open>nil\<close> channel blocks forever.\<close>

definition HandleError :: "error \<Rightarrow> world \<Rightarrow> call \<times> world" where
  "HandleError err w =
     (let w1 = ensureErrorChannel w in
      case errch (app w1) of
        None \<Rightarrow> (Block, w1)
      | Some c \<Rightarrow>
          (case send c err w1 of
             (Return, w2) \<Rightarrow> close_chan c w2
           | (r, w2) \<Rightarrow> (r, w2)))"

text \<open>
  \<^verbatim>\<open>v, ok := <-ch\<close> by a reader of the channel that \<^verbatim>\<open>Errors\<close> returned, with no sender
  waiting: the oldest queued value, the zero value and \<^verbatim>\<open>false\<close> on a closed and drained
  channel, and \<open>None\<close> for a receive that blocks.
\<close>

definition recv :: "addr \<Rightarrow> world \<Rightarrow> (error \<times> bool) option \<times> world" where
  "recv c w =
     (let ch = chans w c in
      case buffer ch of
        v # vs \<Rightarrow> (Some (v, True), w\<lparr>chans := (chans w)(c := ch\<lparr>buffer := vs\<rparr>)\<rparr>)
      | [] \<Rightarrow> if isClosed ch then (Some (None, False), w) else (None, w))"

text \<open>\<open>n\<close> receives in a row, with what each one observed.\<close>

fun recvs :: "nat \<Rightarrow> addr \<Rightarrow> world \<Rightarrow> (error \<times> bool) option list \<times> world" where
  "recvs 0 c w = ([], w)"
| "recvs (Suc n) c w =
     (case recv c w of (r, w') \<Rightarrow> (case recvs n c w' of (rs, w'') \<Rightarrow> (r # rs, w'')))"

text \<open>A handle on which \<^verbatim>\<open>HandleError\<close> has not run: no channel yet, or an open and empty one.\<close>

definition errch_unused :: "world \<Rightarrow> bool" where
  "errch_unused w \<longleftrightarrow>
     (case errch (app w) of
        None \<Rightarrow> True
      | Some c \<Rightarrow> chans w c = \<lparr>buffer = [], capacity = 1, isClosed = False\<rparr>)"

text \<open>A new handle as the tests build it, with an empty heap.\<close>

definition new_world :: "App \<Rightarrow> world" where
  "new_world a =
     \<lparr>app = a,
      bases = (\<lambda>p. \<lparr>isInitialized = False, timestamped = False, shutdownErr = None\<rparr>),
      chans = (\<lambda>c. \<lparr>buffer = [], capacity = 0, isClosed = False\<rparr>),
      allocated = 0\<rparr>"

text \<open>
  Calls made one after the other on the handle, for what may happen between two events of
  interest. \<open>Receive\<close> is a reader taking one value from the channel that \<^verbatim>\<open>Errors\<close>
  gives it. A call that blocks leaves the world as it is; a panic of a call is recovered
  by the caller, as the tests do.
\<close>

datatype op = CallLogger | CallErrors | CallExit int | CallHandleError error | Receive

fun apply_op :: "op \<Rightarrow> world \<Rightarrow> world" where
  "apply_op CallLogger w = (case Logger w of None \<Rightarrow> w | Some (p, w') \<Rightarrow> w')"
| "apply_op CallErrors w = snd (Errors w)"
| "apply_op (CallExit code) w = snd (snd (Exit code w))"
| "apply_op (CallHandleError err) w = snd (HandleError err w)"
| "apply_op Receive w =
     (case Errors w of (None, w') \<Rightarrow> w' | (Some c, w') \<Rightarrow> snd (recv c w'))"

text \<open>
  A handle of the tests on which \<^verbatim>\<open>Logger()\<close> was called and whose logger then got a
  sink whose shutdown fails (\<^verbatim>\<open>a.Logger().AddLogger(sink)\<close>).
\<close>

definition failing_sink_world :: world where
  "failing_sink_world =
     (case Logger_locked (new_world (newApp [] [])) of
        (p, w) \<Rightarrow> w\<lparr>bases := (bases w)(p := (bases w p)\<lparr>shutdownErr := Some ''sink failed''\<rparr>)\<rparr>)"

text \<open>What \<^verbatim>\<open>Exit\<close> makes of the handler's answer, and the events of calling it.\<close>

fun handler_outcome :: "handler_result \<Rightarrow> exit_outcome" where
  "handler_outcome Returns = ExitPanic (StringValue ''exit handler returned'')"
| "handler_outcome (Panics v) = ExitPanic (StringValue v)"
| "handler_outcome NoReturn = HandlerKept"

fun handler_events :: "int \<Rightarrow> addr option \<Rightarrow> handler_result \<Rightarrow> event list" where
  "handler_events code l Returns = [HandlerCalled code l, HandlerReturned]"
| "handler_events code l r = [HandlerCalled code l]"

section \<open>Racing callers of \<^verbatim>\<open>Logger\<close>\<close>

text \<open>
  Several goroutines call \<^verbatim>\<open>Logger()\<close> on one handle. Each statement of the function is
  a step of its own, so that nothing but the mutex keeps two callers apart. A caller is
  \<^item> \<open>Calling\<close>: in the call, before \<^verbatim>\<open>a.loggerMu.Lock()\<close> has returned;
  \<^item> \<open>Holding\<close>: past \<^verbatim>\<open>Lock\<close>, before the test \<^verbatim>\<open>a.logger == nil\<close>;
  \<^item> \<open>Creating\<close>: the test found \<^verbatim>\<open>nil\<close>; the logger is still to be built;
  \<^item> \<open>Storing p\<close>: the new logger \<open>p\<close> is built and held in the local variable, before
    \<^verbatim>\<open>a.logger = logger\<close>;
  \<^item> \<open>Initing p\<close>: the field is written, before \<^verbatim>\<open>logger.InitLoggers()\<close>;
  \<^item> \<open>Reading\<close>: past the \<^verbatim>\<open>if\<close>, before \<^verbatim>\<open>return a.logger\<close> reads the field;
  \<^item> \<open>Unlocking r\<close>: the result \<open>r\<close> is read, the deferred \<^verbatim>\<open>Unlock\<close> still to run;
  \<^item> \<open>Returned r\<close>.
\<close>

datatype tstatus = Calling | Holding | Creating | Storing addr | Initing addr | Reading
  | Unlocking "addr option" | Returned "addr option"

record racing =
  shared :: world
  threads :: "tstatus list"
  crashed :: "string option"

definition Logger_calls :: "nat \<Rightarrow> world \<Rightarrow> racing" where
  "Logger_calls n w = \<lparr>shared = w, threads = replicate n Calling, crashed = None\<rparr>"

datatype tstep = Lock nat | Test nat | Create nat | Store nat | Init nat | Read nat | Unlock nat

definition set_mutex :: "bool \<Rightarrow> world \<Rightarrow> world" where
  "set_mutex b w = w\<lparr>app := (app w)\<lparr>loggerMu := b\<rparr>\<rparr>"

definition set_thread :: "nat \<Rightarrow> tstatus \<Rightarrow> racing \<Rightarrow> racing" where
  "set_thread i t s = s\<lparr>threads := (threads s)[i := t]\<rparr>"

text \<open>
  The three statements that make the logger: lines 78 to 110 build a new object with the
  console sink, not yet initialized; line 112 writes the field; line 114 is
  \<^verbatim>\<open>logger.InitLoggers()\<close>, taken to set the flag.
\<close>

definition new_base :: "world \<Rightarrow> world" where
  "new_base w =
     w\<lparr>bases := (bases w)(allocated w :=
            \<lparr>isInitialized = False, timestamped = StderrIsOsStderr (app w), shutdownErr = None\<rparr>),
       allocated := Suc (allocated w)\<rparr>"

definition store_logger :: "addr \<Rightarrow> world \<Rightarrow> world" where
  "store_logger p w = w\<lparr>app := (app w)\<lparr>logger := Some p\<rparr>\<rparr>"

definition InitLoggers :: "addr \<Rightarrow> world \<Rightarrow> world" where
  "InitLoggers p w = w\<lparr>bases := (bases w)(p := (bases w p)\<lparr>isInitialized := True\<rparr>)\<rparr>"

text \<open>
  \<open>Lock i\<close> can happen only when the mutex is free; every other step of a caller needs
  nothing but the caller being at that statement. \<^verbatim>\<open>Unlock\<close> of a mutex that is not locked
  is a fatal error of the Go runtime.
\<close>

fun race_step :: "tstep \<Rightarrow> racing \<Rightarrow> racing option" where
  "race_step (Lock i) s =
     (if crashed s \<noteq> None \<or> \<not> i < length (threads s) then None
      else case threads s ! i of
        Calling \<Rightarrow>
          if loggerMu (app (shared s)) then None
          else Some (set_thread i Holding (s\<lparr>shared := set_mutex True (shared s)\<rparr>))
      | _ \<Rightarrow> None)"
| "race_step (Test i) s =
     (if crashed s \<noteq> None \<or> \<not> i < length (threads s) then None
      else case threads s ! i of
        Holding \<Rightarrow>
          if logger (app (shared s)) = None then Some (set_thread i Creating s)
          else Some (set_thread i Reading s)
      | _ \<Rightarrow> None)"
| "race_step (Create i) s =
     (if crashed s \<noteq> None \<or> \<not> i < length (threads s) then None
      else case threads s ! i of
        Creating \<Rightarrow>
          Some (set_thread i (Storing (allocated (shared s))) (s\<lparr>shared := new_base (shared s)\<rparr>))
      | _ \<Rightarrow> None)"
| "race_step (Store i) s =
     (if crashed s \<noteq> None \<or> \<not> i < length (threads s) then None
      else case threads s ! i of
        Storing p \<Rightarrow> Some (set_thread i (Initing p) (s\<lparr>shared := store_logger p (shared s)\<rparr>))
      | _ \<Rightarrow> None)"
| "race_step (Init i) s =
     (if crashed s \<noteq> None \<or> \<not> i < length (threads s) then None
      else case threads s ! i of
        Initing p \<Rightarrow> Some (set_thread i Reading (s\<lparr>shared := InitLoggers p (shared s)\<rparr>))
      | _ \<Rightarrow> None)"
| "race_step (Read i) s =
     (if crashed s \<noteq> None \<or> \<not> i < length (threads s) then None
      else case threads s ! i of
        Reading \<Rightarrow> Some (set_thread i (Unlocking (logger (app (shared s)))) s)
      | _ \<Rightarrow> None)"
| "race_step (Unlock i) s =
     (if crashed s \<noteq> None \<or> \<not> i < length (threads s) then None
      else case threads s ! i of
        Unlocking r \<Rightarrow>
          if loggerMu (app (shared s))
          then Some (set_thread i (Returned r) (s\<lparr>shared := set_mutex False (shared s)\<rparr>))
          else Some (s\<lparr>crashed := Some ''sync: unlock of unlocked mutex''\<rparr>)
      | _ \<Rightarrow> None)"

fun race :: "tstep list \<Rightarrow> racing \<Rightarrow> racing option" where
  "race [] s = Some s"
| "race (x # xs) s = (case race_step x s of None \<Rightarrow> None | Some s' \<Rightarrow> race xs s')"

text \<open>The logger of the epoch that starts in \<open>w\<close>: the one that exists, or the next object.\<close>

definition epoch_logger :: "world \<Rightarrow> addr" where
  "epoch_logger w = (case logger (app w) of Some p \<Rightarrow> p | None \<Rightarrow> allocated w)"

text \<open>The steps a caller has left, and the callers that hold the mutex.\<close>

fun trank :: "tstatus \<Rightarrow> nat" where
  "trank Calling = 7" | "trank Holding = 6" | "trank Creating = 5" | "trank (Storing p) = 4"
| "trank (Initing p) = 3" | "trank Reading = 2" | "trank (Unlocking r) = 1"
| "trank (Returned r) = 0"

definition race_left :: "racing \<Rightarrow> nat" where
  "race_left s = sum_list (map trank (threads s)) + (if crashed s = None then 1 else 0)"

fun holding :: "tstatus \<Rightarrow> bool" where
  "holding Calling = False" | "holding (Returned r) = False" | "holding _ = True"

definition holders :: "tstatus list \<Rightarrow> nat" where
  "holders ts = length (filter holding ts)"

text \<open>The result a caller has read from \<^verbatim>\<open>a.logger\<close>, once it has.\<close>

fun result_of :: "tstatus \<Rightarrow> addr option option" where
  "result_of (Unlocking r) = Some r" | "result_of (Returned r) = Some r" | "result_of _ = None"

fun returned :: "tstatus \<Rightarrow> bool" where
  "returned (Returned r) = True" | "returned _ = False"

text \<open>
  What a caller at its statement knows of the handle, in a race that starts in \<open>w\<close> and
  has come to the world \<open>v\<close>.
\<close>

fun thread_ok :: "world \<Rightarrow> world \<Rightarrow> tstatus \<Rightarrow> bool" where
  "thread_ok w v Creating = (logger (app v) = None \<and> allocated v = allocated w)"
| "thread_ok w v (Storing p) =
     (p = allocated w \<and> logger (app v) = None \<and> allocated v = Suc (allocated w))"
| "thread_ok w v (Initing p) = (logger (app v) = Some p)"
| "thread_ok w v Reading = (logger (app v) \<noteq> None)"
| "thread_ok w v (Unlocking r) = (r \<noteq> None \<and> logger (app v) = r)"
| "thread_ok w v (Returned r) = (r \<noteq> None \<and> logger (app v) = r)"
| "thread_ok w v _ = True"

text \<open>
  What holds in every state of a race of \<open>n\<close> callers that starts in \<open>w\<close>: no crash;
  the mutex is held by exactly one caller or by none; either nothing was made, or the
  handle had no logger and one object was made since, which a caller is about to store
  or the field holds; and every caller knows what its statement lets it know.
\<close>

definition made_ok :: "world \<Rightarrow> world \<Rightarrow> tstatus list \<Rightarrow> bool" where
  "made_ok w v ts \<longleftrightarrow>
     (logger (app v) = logger (app w) \<and> allocated v = allocated w) \<or>
     (logger (app w) = None \<and> logger (app v) = None \<and> allocated v = Suc (allocated w) \<and>
      Storing (allocated w) \<in> set ts) \<or>
     (logger (app w) = None \<and> logger (app v) = Some (allocated w) \<and>
      allocated v = Suc (allocated w))"

definition race_inv :: "world \<Rightarrow> nat \<Rightarrow> racing \<Rightarrow> bool" where
  "race_inv w n s \<longleftrightarrow>
     crashed s = None \<and> length (threads s) = n \<and>
     holders (threads s) = (if loggerMu (app (shared s)) then 1 else 0) \<and>
     made_ok w (shared s) (threads s) \<and>
     (\<forall>t \<in> set (threads s). thread_ok w (shared s) t)"

section \<open>Racing callers of \<^verbatim>\<open>Errors\<close>\<close>

text \<open>
  Several goroutines call \<^verbatim>\<open>Errors()\<close> on one handle, each statement being a step of its
  own. A caller is
  \<^item> \<open>ECalling\<close>: in \<^verbatim>\<open>ensureErrorChannel\<close>, before \<^verbatim>\<open>a.errchMu.Lock()\<close> has returned;
  \<^item> \<open>EHolding\<close>: past \<^verbatim>\<open>Lock\<close>, before the test \<^verbatim>\<open>a.errch == nil\<close>;
  \<^item> \<open>EMaking\<close>: the test found \<^verbatim>\<open>nil\<close>, before \<^verbatim>\<open>a.errch = make(chan error, 1)\<close>;
  \<^item> \<open>EUnlocking\<close>: past the \<^verbatim>\<open>if\<close>, the deferred \<^verbatim>\<open>Unlock\<close> still to run;
  \<^item> \<open>EReading\<close>: back in \<^verbatim>\<open>Errors\<close>, before \<^verbatim>\<open>return a.errch\<close> reads the field, with
    no lock held;
  \<^item> \<open>EReturned r\<close>: returned with the channel \<open>r\<close>.
\<close>

datatype estatus = ECalling | EHolding | EMaking | EUnlocking | EReading
  | EReturned "addr option"

record eracing =
  eshared :: world
  errchMu :: bool
  ethreads :: "estatus list"
  ecrashed :: "string option"

definition Errors_calls :: "nat \<Rightarrow> world \<Rightarrow> eracing" where
  "Errors_calls n w =
     \<lparr>eshared = w, errchMu = False, ethreads = replicate n ECalling, ecrashed = None\<rparr>"

datatype estep = ELock nat | ETest nat | EMake nat | EUnlock nat | ERead nat

text \<open>The statement \<^verbatim>\<open>a.errch = make(chan error, 1)\<close>.\<close>

definition make_chan :: "world \<Rightarrow> world" where
  "make_chan w =
     w\<lparr>app := (app w)\<lparr>errch := Some (allocated w)\<rparr>,
       chans := (chans w)(allocated w := \<lparr>buffer = [], capacity = 1, isClosed = False\<rparr>),
       allocated := Suc (allocated w)\<rparr>"

fun erace_step :: "estep \<Rightarrow> eracing \<Rightarrow> eracing option" where
  "erace_step (ELock i) s =
     (if ecrashed s \<noteq> None \<or> \<not> i < length (ethreads s) then None
      else case ethreads s ! i of
        ECalling \<Rightarrow>
          if errchMu s then None
          else Some (s\<lparr>errchMu := True, ethreads := (ethreads s)[i := EHolding]\<rparr>)
      | _ \<Rightarrow> None)"
| "erace_step (ETest i) s =
     (if ecrashed s \<noteq> None \<or> \<not> i < length (ethreads s) then None
      else case ethreads s ! i of
        EHolding \<Rightarrow>
          if errch (app (eshared s)) = None
          then Some (s\<lparr>ethreads := (ethreads s)[i := EMaking]\<rparr>)
          else Some (s\<lparr>ethreads := (ethreads s)[i := EUnlocking]\<rparr>)
      | _ \<Rightarrow> None)"
| "erace_step (EMake i) s =
     (if ecrashed s \<noteq> None \<or> \<not> i < length (ethreads s) then None
      else case ethreads s ! i of
        EMaking \<Rightarrow>
          Some (s\<lparr>eshared := make_chan (eshared s), ethreads := (ethreads s)[i := EUnlocking]\<rparr>)
      | _ \<Rightarrow> None)"
| "erace_step (EUnlock i) s =
     (if ecrashed s \<noteq> None \<or> \<not> i < length (ethreads s) then None
      else case ethreads s ! i of
        EUnlocking \<Rightarrow>
          if errchMu s
          then Some (s\<lparr>errchMu := False, ethreads := (ethreads s)[i := EReading]\<rparr>)
          else Some (s\<lparr>ecrashed := Some ''sync: unlock of unlocked mutex''\<rparr>)
      | _ \<Rightarrow> None)"
| "erace_step (ERead i) s =
     (if ecrashed s \<noteq> None \<or> \<not> i < length (ethreads s) then None
      else case ethreads s ! i of
        EReading \<Rightarrow>
          Some (s\<lparr>ethreads := (ethreads s)[i := EReturned (errch (app (eshared s)))]\<rparr>)
      | _ \<Rightarrow> None)"

fun erace :: "estep list \<Rightarrow> eracing \<Rightarrow> eracing option" where
  "erace [] s = Some s"
| "erace (x # xs) s = (case erace_step x s of None \<Rightarrow> None | Some s' \<Rightarrow> erace xs s')"

text \<open>The channel of the handle \<open>w\<close>: the one that exists, or the next object.\<close>

definition epoch_channel :: "world \<Rightarrow> addr" where
  "epoch_channel w = (case errch (app w) of Some c \<Rightarrow> c | None \<Rightarrow> allocated w)"



fun eholding :: "estatus \<Rightarrow> bool" where
  "eholding EHolding = True" | "eholding EMaking = True" | "eholding EUnlocking = True"
| "eholding _ = False"

definition eholders :: "estatus list \<Rightarrow> nat" where
  "eholders ts = length (filter eholding ts)"


text \<open>What a caller at its statement knows of the field, the world being \<open>v\<close>.\<close>

fun ethread_ok :: "world \<Rightarrow> estatus \<Rightarrow> bool" where
  "ethread_ok v EMaking = (errch (app v) = None)"
| "ethread_ok v EUnlocking = (errch (app v) \<noteq> None)"
| "ethread_ok v EReading = (errch (app v) \<noteq> None)"
| "ethread_ok v (EReturned r) = (r \<noteq> None \<and> errch (app v) = r)"
| "ethread_ok v _ = True"

text \<open>
  What holds in every state of a race of \<open>n\<close> callers that starts in \<open>w\<close>, a handle whose
  channel is unused: no crash; the mutex is held by exactly one caller or by none; the
  channel is still unused, and it is the one of \<open>w\<close>; and every caller knows what its
  statement lets it know.
\<close>

definition erace_inv :: "world \<Rightarrow> nat \<Rightarrow> eracing \<Rightarrow> bool" where
  "erace_inv w n s \<longleftrightarrow>
     ecrashed s = None \<and> length (ethreads s) = n \<and>
     eholders (ethreads s) = (if errchMu s then 1 else 0) \<and>
     errch_unused (eshared s) \<and> epoch_channel (eshared s) = epoch_channel w \<and>
     (\<forall>t \<in> set (ethreads s). ethread_ok (eshared s) t)"

section \<open>Proofs\<close>

subsection \<open>\<^verbatim>\<open>LookupEnv\<close>: executions are bounded\<close>

lemma work_left_update:
  "i < length ws \<Longrightarrow> wrank st < wrank (snd (ws ! i)) \<Longrightarrow>
   work_left (ws[i := (l, st)]) < work_left ws"
proof (induction ws arbitrary: i)
  case Nil
  then show ?case by simp
next
  case (Cons w ws)
  show ?case
  proof (cases i)
    case 0
    with Cons.prems show ?thesis by (simp add: work_left_def)
  next
    case (Suc j)
    with Cons.prems have "work_left (ws[j := (l, st)]) < work_left ws"
      by (intro Cons.IH) simp_all
    with Suc show ?thesis by (simp add: work_left_def)
  qed
qed

lemma work_left_update_Suc:
  "i < length ws \<Longrightarrow> wrank st < wrank (snd (ws ! i)) \<Longrightarrow>
   work_left (ws[i := (l, st)]) < Suc (work_left ws)"
  using work_left_update[of i ws st l] by simp

lemma work_left_append: "work_left (ws @ [(l, st)]) = work_left ws + wrank st"
  by (simp add: work_left_def)

lemma unfinished_append: "unfinished (ws @ [(l, Ready)]) = Suc (unfinished ws)"
  by (simp add: unfinished_def)

lemma unfinished_update_same:
  "i < length ws \<Longrightarrow> snd (ws ! i) \<noteq> Finished \<Longrightarrow> st \<noteq> Finished \<Longrightarrow>
   unfinished (ws[i := (l, st)]) = unfinished ws"
proof (induction ws arbitrary: i)
  case Nil
  then show ?case by simp
next
  case (Cons w ws)
  then show ?case by (cases i) (simp_all add: unfinished_def)
qed

lemma unfinished_update_Finished:
  "i < length ws \<Longrightarrow> snd (ws ! i) \<noteq> Finished \<Longrightarrow>
   Suc (unfinished (ws[i := (l, Finished)])) = unfinished ws"
proof (induction ws arbitrary: i)
  case Nil
  then show ?case by simp
next
  case (Cons w ws)
  then show ?case by (cases i) (simp_all add: unfinished_def)
qed

lemma unfinished_pos: "i < length ws \<Longrightarrow> snd (ws ! i) \<noteq> Finished \<Longrightarrow> 0 < unfinished ws"
  using nth_mem[of i ws] by (auto simp: unfinished_def filter_empty_conv)

lemma unfinished_zero: "unfinished ws = 0 \<longleftrightarrow> (\<forall>w \<in> set ws. snd w = Finished)"
  by (auto simp: unfinished_def filter_empty_conv)

lemma step_decreases: "step act s = Some s' \<Longrightarrow> steps_left s' < steps_left s"
proof (cases act)
  case Cancel
  assume "step act s = Some s'"
  with Cancel show ?thesis by (auto simp: steps_left_def split: if_splits)
next
  case Spawn
  assume "step act s = Some s'"
  with Spawn show ?thesis by (auto simp: steps_left_def work_left_append split: if_splits)
next
  case (Select i)
  assume "step act s = Some s'"
  with Select show ?thesis
    by (auto simp: steps_left_def set_worker_def work_left_update work_left_update_Suc split: if_splits prod.splits wstatus.splits option.splits)
next
  case (Transfer i)
  assume "step act s = Some s'"
  with Transfer show ?thesis
    by (auto simp: steps_left_def set_worker_def work_left_update work_left_update_Suc split: if_splits prod.splits wstatus.splits)
next
  case (Done i)
  assume "step act s = Some s'"
  with Done show ?thesis
    by (auto simp: steps_left_def set_worker_def work_left_update work_left_update_Suc split: if_splits prod.splits wstatus.splits)
next
  case WaitReturn
  assume "step act s = Some s'"
  with WaitReturn show ?thesis by (auto simp: steps_left_def split: if_splits)
next
  case Close
  assume "step act s = Some s'"
  with Close show ?thesis by (auto simp: steps_left_def split: if_splits)
next
  case RecvClosed
  assume "step act s = Some s'"
  with RecvClosed show ?thesis by (auto simp: steps_left_def split: if_splits)
qed

lemma run_decreases: "run acts s = Some s' \<Longrightarrow> length acts + steps_left s' \<le> steps_left s"
proof (induction acts arbitrary: s)
  case Nil
  then show ?case by simp
next
  case (Cons act acts)
  then obtain s1 where s1: "step act s = Some s1" and r: "run acts s1 = Some s'"
    by (auto split: option.splits)
  from Cons.IH[OF r] step_decreases[OF s1] show ?case by simp
qed

lemma steps_left_init: "steps_left (LookupEnv_init a k) \<le> 4 * length (Environment a) + 5"
  by (simp add: steps_left_def LookupEnv_init_def work_left_def)

subsection \<open>\<^verbatim>\<open>LookupEnv\<close>: the invariant\<close>

lemma map_fst_update: "i < length ws \<Longrightarrow> map fst (ws[i := (fst (ws ! i), st)]) = map fst ws"
  by (rule nth_equalityI) (simp_all add: nth_list_update)

lemma in_set_updateD: "x \<in> set (ws[i := y]) \<Longrightarrow> x = y \<or> x \<in> set ws"
  using set_update_subset_insert[of ws i y] by auto

lemma match_in_map_filter:
  "l \<in> set env \<Longrightarrow> entry_match k l = Some v \<Longrightarrow> v \<in> set (List.map_filter (entry_match k) env)"
  by (induction env) (auto split: option.splits)

lemma worker_line_in_env:
  "map fst ws = take (length ws) env \<Longrightarrow> i < length ws \<Longrightarrow> fst (ws ! i) \<in> set env"
proof -
  assume a: "map fst ws = take (length ws) env" and i: "i < length ws"
  from i have "fst (ws ! i) = map fst ws ! i" by simp
  also have "\<dots> \<in> set (map fst ws)" using i by (intro nth_mem) simp
  also have "set (map fst ws) \<subseteq> set env" unfolding a by (rule set_take_subset)
  finally show ?thesis .
qed

lemma set_worker_simps [simp]:
  "handle (set_worker i st s) = handle s"
  "key (set_worker i st s) = key s"
  "wg (set_worker i st s) = wg s"
  "ch_closed (set_worker i st s) = ch_closed s"
  "closer (set_worker i st s) = closer s"
  "result (set_worker i st s) = result s"
  "panicked (set_worker i st s) = panicked s"
  "length (workers (set_worker i st s)) = length (workers s)"
  by (simp_all add: set_worker_def)

lemma set_worker_lines:
  "i < length (workers s) \<Longrightarrow> map fst (workers (set_worker i st s)) = map fst (workers s)"
  by (simp add: set_worker_def map_fst_update)

lemma set_worker_member:
  "(l, st') \<in> set (workers (set_worker i st s)) \<Longrightarrow>
   (l = fst (workers s ! i) \<and> st' = st) \<or> (l, st') \<in> set (workers s)"
  by (auto simp: set_worker_def dest: in_set_updateD)

lemma set_worker_unfinished:
  "i < length (workers s) \<Longrightarrow> snd (workers s ! i) \<noteq> Finished \<Longrightarrow> st \<noteq> Finished \<Longrightarrow>
   unfinished (workers (set_worker i st s)) = unfinished (workers s)"
  by (simp add: set_worker_def unfinished_update_same)

lemma set_worker_Finished:
  "i < length (workers s) \<Longrightarrow> snd (workers s ! i) \<noteq> Finished \<Longrightarrow>
   Suc (unfinished (workers (set_worker i Finished s))) = unfinished (workers s)"
  by (simp add: set_worker_def unfinished_update_Finished)

text \<open>What a step of a worker needs and gives.\<close>

lemma step_SelectD:
  assumes "step (Select i) s = Some s'"
  obtains l st where "panicked s = None" "i < length (workers s)" "workers s ! i = (l, Ready)"
    "s' = set_worker i st s" "st = Exiting \<or> (\<exists>v. st = Sending v \<and> entry_match (key s) l = Some v
       \<and> \<not> cancelled (Context (handle s)))"
    "entry_match (key s) l = None \<or> cancelled (Context (handle s)) \<or> st \<noteq> Exiting"
  using assms by (auto split: if_splits prod.splits wstatus.splits option.splits)

lemma step_TransferD:
  assumes "step (Transfer i) s = Some s'"
  obtains l v where "panicked s = None" "i < length (workers s)" "workers s ! i = (l, Sending v)"
    "(ch_closed s \<and> s' = s\<lparr>panicked := Some ''send on closed channel''\<rparr>) \<or>
     (\<not> ch_closed s \<and> result s = None \<and> s' = (set_worker i Exiting s)\<lparr>result := Some (v, True)\<rparr>)"
  using assms by (auto split: if_splits prod.splits wstatus.splits)

lemma step_DoneD:
  assumes "step (Done i) s = Some s'"
  obtains l where "panicked s = None" "i < length (workers s)" "workers s ! i = (l, Exiting)"
    "(wg s < 1 \<and> s' = s\<lparr>panicked := Some ''sync: negative WaitGroup counter''\<rparr>) \<or>
     (1 \<le> wg s \<and> s' = (set_worker i Finished s)\<lparr>wg := wg s - 1\<rparr>)"
  using assms by (auto split: if_splits prod.splits wstatus.splits)

lemma inv_init: "lookup_inv (Environment a) k (LookupEnv_init a k)"
  by (simp add: lookup_inv_def LookupEnv_init_def unfinished_def)

lemma inv_Cancel: "step Cancel s = Some s' \<Longrightarrow> lookup_inv env k s \<Longrightarrow> lookup_inv env k s'"
  by (auto simp: lookup_inv_def split: if_splits)

lemma inv_Spawn: "step Spawn s = Some s' \<Longrightarrow> lookup_inv env k s \<Longrightarrow> lookup_inv env k s'"
  by (auto simp: lookup_inv_def unfinished_append take_Suc_conv_app_nth Suc_diff_Suc split: if_splits)

lemma lookup_invD:
  assumes "lookup_inv env k s"
  shows "Environment (handle s) = env" "key s = k" "panicked s = None"
    "length (workers s) \<le> length env"
    "map fst (workers s) = take (length (workers s)) env"
    "wg s = int (length env - length (workers s)) + int (unfinished (workers s))"
    "closer s \<noteq> Waiting \<Longrightarrow> wg s = 0"
    "ch_closed s \<longleftrightarrow> closer s = Closed"
    "\<And>l v. (l, Sending v) \<in> set (workers s) \<Longrightarrow> entry_match k l = Some v"
    "\<And>r. result s = Some r \<Longrightarrow>
        (r = ('''', False) \<and> ch_closed s) \<or>
        (snd r \<and> fst r \<in> set (List.map_filter (entry_match k) env))"
  using assms unfolding lookup_inv_def by blast+

lemma inv_set_worker:
  assumes inv: "lookup_inv env k s" and i: "i < length (workers s)"
    and w: "snd (workers s ! i) \<noteq> Finished" and nf: "st \<noteq> Finished"
    and m: "\<And>v. st = Sending v \<Longrightarrow> entry_match k (fst (workers s ! i)) = Some v"
  shows "lookup_inv env k (set_worker i st s)"
proof -
  note I = lookup_invD[OF inv]
  let ?s = "set_worker i st s"
  have u: "unfinished (workers ?s) = unfinished (workers s)"
    using i w nf by (rule set_worker_unfinished)
  have l: "map fst (workers ?s) = map fst (workers s)"
    using i by (rule set_worker_lines)
  have snd: "\<forall>l' v. (l', Sending v) \<in> set (workers ?s) \<longrightarrow> entry_match k l' = Some v"
  proof (intro allI impI)
    fix l' v assume "(l', Sending v) \<in> set (workers ?s)"
    then have "(l' = fst (workers s ! i) \<and> Sending v = st) \<or> (l', Sending v) \<in> set (workers s)"
      by (rule set_worker_member)
    then show "entry_match k l' = Some v"
      using m I(9) by auto
  qed
  show ?thesis
    unfolding lookup_inv_def
  proof (intro conjI)
    show "Environment (handle ?s) = env" using I(1) by simp
    show "key ?s = k" using I(2) by simp
    show "panicked ?s = None" using I(3) by simp
    show "length (workers ?s) \<le> length env" using I(4) by simp
    show "map fst (workers ?s) = take (length (workers ?s)) env" using I(5) l by simp
    show "wg ?s = int (length env - length (workers ?s)) + int (unfinished (workers ?s))"
      using I(6) u by simp
    show "closer ?s \<noteq> Waiting \<longrightarrow> wg ?s = 0" using I(7) by simp
    show "ch_closed ?s \<longleftrightarrow> closer ?s = Closed" using I(8) by simp
    show "\<forall>l v. (l, Sending v) \<in> set (workers ?s) \<longrightarrow> entry_match k l = Some v" by (rule snd)
    show "\<forall>r. result ?s = Some r \<longrightarrow> (r = ('''', False) \<and> ch_closed ?s) \<or>
        (snd r \<and> fst r \<in> set (List.map_filter (entry_match k) env))"
      using I(10) by simp
  qed
qed

lemma inv_received:
  assumes inv: "lookup_inv env k s" and v: "v \<in> set (List.map_filter (entry_match k) env)"
  shows "lookup_inv env k (s\<lparr>result := Some (v, True)\<rparr>)"
  using inv v by (auto simp: lookup_inv_def)

lemma inv_wg_Done:
  assumes inv: "lookup_inv env k s" and i: "i < length (workers s)"
    and w: "snd (workers s ! i) \<noteq> Finished"
  shows "lookup_inv env k ((set_worker i Finished s)\<lparr>wg := wg s - 1\<rparr>)"
proof -
  note I = lookup_invD[OF inv]
  let ?s = "set_worker i Finished s"
  let ?t = "?s\<lparr>wg := wg s - 1\<rparr>"
  have u: "Suc (unfinished (workers ?s)) = unfinished (workers s)"
    using i w by (rule set_worker_Finished)
  then have pos: "wg s \<noteq> 0" using I(6) by simp
  have l: "map fst (workers ?s) = map fst (workers s)"
    using i by (rule set_worker_lines)
  have snd: "\<forall>l' v. (l', Sending v) \<in> set (workers ?s) \<longrightarrow> entry_match k l' = Some v"
  proof (intro allI impI)
    fix l' v assume "(l', Sending v) \<in> set (workers ?s)"
    then have "(l' = fst (workers s ! i) \<and> Sending v = Finished) \<or> (l', Sending v) \<in> set (workers s)"
      by (rule set_worker_member)
    then show "entry_match k l' = Some v"
      using I(9) by auto
  qed
  show ?thesis
    unfolding lookup_inv_def
  proof (intro conjI)
    show "Environment (handle ?t) = env" using I(1) by simp
    show "key ?t = k" using I(2) by simp
    show "panicked ?t = None" using I(3) by simp
    show "length (workers ?t) \<le> length env" using I(4) by simp
    show "map fst (workers ?t) = take (length (workers ?t)) env" using I(5) l by simp
    show "wg ?t = int (length env - length (workers ?t)) + int (unfinished (workers ?t))"
      using I(6) u by simp
    show "closer ?t \<noteq> Waiting \<longrightarrow> wg ?t = 0" using I(7) pos by auto
    show "ch_closed ?t \<longleftrightarrow> closer ?t = Closed" using I(8) by simp
    show "\<forall>l v. (l, Sending v) \<in> set (workers ?t) \<longrightarrow> entry_match k l = Some v"
      using snd by simp
    show "\<forall>r. result ?t = Some r \<longrightarrow> (r = ('''', False) \<and> ch_closed ?t) \<or>
        (snd r \<and> fst r \<in> set (List.map_filter (entry_match k) env))"
      using I(10) by simp
  qed
qed

lemma inv_Select:
  assumes st: "step (Select i) s = Some s'" and inv: "lookup_inv env k s"
  shows "lookup_inv env k s'"
proof -
  from st obtain l st where i: "i < length (workers s)" and w: "workers s ! i = (l, Ready)"
    and s': "s' = set_worker i st s"
    and c: "st = Exiting \<or> (\<exists>v. st = Sending v \<and> entry_match (key s) l = Some v
       \<and> \<not> cancelled (Context (handle s)))"
    by (rule step_SelectD)
  show ?thesis
    unfolding s' using inv i
  proof (rule inv_set_worker)
    show "snd (workers s ! i) \<noteq> Finished" using w by simp
    show "st \<noteq> Finished" using c by auto
    show "\<And>v. st = Sending v \<Longrightarrow> entry_match k (fst (workers s ! i)) = Some v"
      using c w lookup_invD(2)[OF inv] by auto
  qed
qed

lemma unfinished_wg:
  assumes inv: "lookup_inv env k s" and i: "i < length (workers s)"
    and w: "snd (workers s ! i) \<noteq> Finished"
  shows "1 \<le> wg s" "\<not> ch_closed s" "closer s = Waiting"
proof -
  from i w have "0 < unfinished (workers s)" by (rule unfinished_pos)
  then show "1 \<le> wg s" using lookup_invD(6)[OF inv] by simp
  then show "closer s = Waiting" using lookup_invD(7)[OF inv] by auto
  then show "\<not> ch_closed s" using lookup_invD(8)[OF inv] by simp
qed

lemma inv_Done:
  assumes st: "step (Done i) s = Some s'" and inv: "lookup_inv env k s"
  shows "lookup_inv env k s'"
proof -
  from st obtain l where i: "i < length (workers s)" and w: "workers s ! i = (l, Exiting)"
    and c: "(wg s < 1 \<and> s' = s\<lparr>panicked := Some ''sync: negative WaitGroup counter''\<rparr>) \<or>
     (1 \<le> wg s \<and> s' = (set_worker i Finished s)\<lparr>wg := wg s - 1\<rparr>)"
    by (rule step_DoneD)
  from w have nf: "snd (workers s ! i) \<noteq> Finished" by simp
  from unfinished_wg(1)[OF inv i nf] c
  have s': "s' = (set_worker i Finished s)\<lparr>wg := wg s - 1\<rparr>" by auto
  show ?thesis unfolding s' using inv i nf by (rule inv_wg_Done)
qed

lemma inv_Transfer:
  assumes st: "step (Transfer i) s = Some s'" and inv: "lookup_inv env k s"
  shows "lookup_inv env k s'"
proof -
  from st obtain l v where i: "i < length (workers s)" and w: "workers s ! i = (l, Sending v)"
    and c: "(ch_closed s \<and> s' = s\<lparr>panicked := Some ''send on closed channel''\<rparr>) \<or>
     (\<not> ch_closed s \<and> result s = None \<and> s' = (set_worker i Exiting s)\<lparr>result := Some (v, True)\<rparr>)"
    by (rule step_TransferD)
  from w have nf: "snd (workers s ! i) \<noteq> Finished" by simp
  from unfinished_wg(2)[OF inv i nf] c
  have s': "s' = (set_worker i Exiting s)\<lparr>result := Some (v, True)\<rparr>" by auto
  from i w have "(l, Sending v) \<in> set (workers s)" by (metis nth_mem)
  then have em: "entry_match k l = Some v" by (rule lookup_invD(9)[OF inv])
  from worker_line_in_env[OF lookup_invD(5)[OF inv] i] w have "l \<in> set env" by simp
  then have v: "v \<in> set (List.map_filter (entry_match k) env)" using em by (rule match_in_map_filter)
  have "lookup_inv env k (set_worker i Exiting s)"
    using inv i nf by (rule inv_set_worker) simp_all
  then show ?thesis unfolding s' using v by (rule inv_received)
qed

lemma inv_WaitReturn: "step WaitReturn s = Some s' \<Longrightarrow> lookup_inv env k s \<Longrightarrow> lookup_inv env k s'"
  by (auto simp: lookup_inv_def split: if_splits)

lemma inv_Close: "step Close s = Some s' \<Longrightarrow> lookup_inv env k s \<Longrightarrow> lookup_inv env k s'"
  by (auto simp: lookup_inv_def split: if_splits)

lemma inv_RecvClosed: "step RecvClosed s = Some s' \<Longrightarrow> lookup_inv env k s \<Longrightarrow> lookup_inv env k s'"
  by (auto simp: lookup_inv_def split: if_splits)

lemma inv_step: "step act s = Some s' \<Longrightarrow> lookup_inv env k s \<Longrightarrow> lookup_inv env k s'"
  by (cases act) (simp_all only: inv_Cancel inv_Spawn inv_Select inv_Transfer inv_Done
      inv_WaitReturn inv_Close inv_RecvClosed)

lemma inv_run: "run acts s = Some s' \<Longrightarrow> lookup_inv env k s \<Longrightarrow> lookup_inv env k s'"
proof (induction acts arbitrary: s)
  case Nil
  then show ?case by simp
next
  case (Cons act acts)
  then obtain s1 where s1: "step act s = Some s1" and r: "run acts s1 = Some s'"
    by (auto split: option.splits)
  from Cons.IH[OF r inv_step[OF s1 Cons.prems(2)]] show ?case .
qed

subsection \<open>\<^verbatim>\<open>LookupEnv\<close>: the caller always gets an answer\<close>

lemma entry_match_spec: "entry_match k l = Some v \<longleftrightarrow> spec_entry l = Some (k, v)"
  by (auto simp: entry_match_def SplitN2_def spec_entry_def)

lemma entry_match_malformed: "CHR ''='' \<notin> set l \<Longrightarrow> entry_match k l = None"
  by (simp add: entry_match_def SplitN2_def)

lemma run_append:
  "run (xs @ ys) s = (case run xs s of None \<Rightarrow> None | Some s' \<Rightarrow> run ys s')"
  by (induction xs arbitrary: s) (auto split: option.splits)

lemma progress:
  assumes inv: "lookup_inv env k s" and r: "result s = None"
  shows "\<exists>act s'. act \<noteq> Cancel \<and> step act s = Some s'"
proof -
  note I = lookup_invD[OF inv]
  show ?thesis
  proof (cases "length (workers s) < length env")
    case True
    then have "step Spawn s \<noteq> None" using I(1,3) by simp
    then show ?thesis by blast
  next
    case full: False
    show ?thesis
    proof (cases "\<exists>i < length (workers s). snd (workers s ! i) \<noteq> Finished")
      case True
      then obtain i where i: "i < length (workers s)" and nf: "snd (workers s ! i) \<noteq> Finished"
        by blast
      note U = unfinished_wg[OF inv i nf]
      obtain l st where w: "workers s ! i = (l, st)" by (cases "workers s ! i")
      show ?thesis
      proof (cases st)
        case Ready
        then have "step (Select i) s \<noteq> None" using i w I(3) by (simp split: option.splits)
        then show ?thesis by blast
      next
        case (Sending v)
        then have "step (Transfer i) s \<noteq> None" using i w I(3) U(2) r by simp
        then show ?thesis by blast
      next
        case Exiting
        then have "step (Done i) s \<noteq> None" using i w I(3) U(1) by simp
        then show ?thesis by blast
      next
        case Finished
        with nf w show ?thesis by simp
      qed
    next
      case False
      then have "\<forall>w \<in> set (workers s). snd w = Finished"
        by (metis in_set_conv_nth)
      then have "unfinished (workers s) = 0" by (simp add: unfinished_zero)
      with full I(4,6) have wg0: "wg s = 0" by simp
      show ?thesis
      proof (cases "closer s")
        case Waiting
        then have "step WaitReturn s \<noteq> None" using wg0 I(3) by simp
        then show ?thesis by blast
      next
        case Closing
        then have "step Close s \<noteq> None" using I(3) by simp
        then show ?thesis by blast
      next
        case Closed
        then have "step RecvClosed s \<noteq> None" using I(3,8) r by simp
        then show ?thesis by blast
      qed
    qed
  qed
qed

lemma completion:
  "lookup_inv env k s \<Longrightarrow>
   \<exists>acts s'. Cancel \<notin> set acts \<and> run acts s = Some s' \<and> result s' \<noteq> None"
proof (induction "steps_left s" arbitrary: s rule: less_induct)
  case less
  show ?case
  proof (cases "result s = None")
    case False
    then have "Cancel \<notin> set [] \<and> run [] s = Some s \<and> result s \<noteq> None" by simp
    then show ?thesis by blast
  next
    case True
    from progress[OF less.prems True] obtain act s1
      where act: "act \<noteq> Cancel" and s1: "step act s = Some s1" by blast
    from less.hyps[OF step_decreases[OF s1] inv_step[OF s1 less.prems]]
    obtain acts s' where "Cancel \<notin> set acts" "run acts s1 = Some s'" "result s' \<noteq> None"
      by blast
    with act s1 have "Cancel \<notin> set (act # acts) \<and> run (act # acts) s = Some s' \<and> result s' \<noteq> None"
      by simp
    then show ?thesis by blast
  qed
qed

subsection \<open>\<^verbatim>\<open>LookupEnv\<close>: runs without cancellation\<close>

lemma delivered_invD:
  assumes "delivered_inv k s"
  shows "\<not> cancelled (Context (handle s))" "key s = k"
    "\<And>l st. (l, st) \<in> set (workers s) \<Longrightarrow> entry_match k l \<noteq> None \<Longrightarrow>
       st = Exiting \<or> st = Finished \<Longrightarrow> \<exists>v. result s = Some (v, True)"
  using assms unfolding delivered_inv_def by blast+

lemma delivered_invI:
  assumes "\<not> cancelled (Context (handle s))" "key s = k"
    "\<And>l st. (l, st) \<in> set (workers s) \<Longrightarrow> entry_match k l \<noteq> None \<Longrightarrow>
       st = Exiting \<or> st = Finished \<Longrightarrow> \<exists>v. result s = Some (v, True)"
  shows "delivered_inv k s"
  using assms unfolding delivered_inv_def by blast

lemma delivered_step:
  assumes st: "step act s = Some s'" and act: "act \<noteq> Cancel" and d: "delivered_inv k s"
    and p: "panicked s' = None"
  shows "delivered_inv k s'"
proof (cases act)
  case Cancel
  with act show ?thesis by simp
next
  case Spawn
  with st have s': "s' = s\<lparr>workers := workers s @ [(Environment (handle s) ! length (workers s), Ready)]\<rparr>"
    by (simp split: if_splits)
  show ?thesis
  proof (rule delivered_invI)
    show "\<not> cancelled (Context (handle s'))" "key s' = k"
      using delivered_invD(1,2)[OF d] by (simp_all add: s')
    fix l st assume "(l, st) \<in> set (workers s')" and m: "entry_match k l \<noteq> None"
      and e: "st = Exiting \<or> st = Finished"
    then have "(l, st) \<in> set (workers s)" by (auto simp: s')
    from delivered_invD(3)[OF d this m e] show "\<exists>v. result s' = Some (v, True)"
      by (simp add: s')
  qed
next
  case (Select i)
  from st have "step (Select i) s = Some s'" unfolding Select .
  then obtain l st where w: "workers s ! i = (l, Ready)" and s': "s' = set_worker i st s"
    and c: "entry_match (key s) l = None \<or> cancelled (Context (handle s)) \<or> st \<noteq> Exiting"
    and c2: "st = Exiting \<or> (\<exists>v. st = Sending v \<and> entry_match (key s) l = Some v
       \<and> \<not> cancelled (Context (handle s)))"
    by (rule step_SelectD)
  note D = delivered_invD[OF d]
  show ?thesis
  proof (rule delivered_invI)
    show "\<not> cancelled (Context (handle s'))" "key s' = k"
      using D(1,2) by (simp_all add: s')
    fix l' st' assume mem: "(l', st') \<in> set (workers s')" and m: "entry_match k l' \<noteq> None"
      and e: "st' = Exiting \<or> st' = Finished"
    from mem have "(l' = fst (workers s ! i) \<and> st' = st) \<or> (l', st') \<in> set (workers s)"
      unfolding s' by (rule set_worker_member)
    then show "\<exists>v. result s' = Some (v, True)"
    proof
      assume "l' = fst (workers s ! i) \<and> st' = st"
      with w have "l' = l" "st' = st" by simp_all
      with m e c c2 D(1,2) have False by auto
      then show ?thesis ..
    next
      assume "(l', st') \<in> set (workers s)"
      from D(3)[OF this m e] show ?thesis by (simp add: s')
    qed
  qed
next
  case (Transfer i)
  from st have "step (Transfer i) s = Some s'" unfolding Transfer .
  then obtain l v where
    c: "(ch_closed s \<and> s' = s\<lparr>panicked := Some ''send on closed channel''\<rparr>) \<or>
     (\<not> ch_closed s \<and> result s = None \<and> s' = (set_worker i Exiting s)\<lparr>result := Some (v, True)\<rparr>)"
    by (rule step_TransferD)
  with p have s': "s' = (set_worker i Exiting s)\<lparr>result := Some (v, True)\<rparr>"
    by (elim disjE conjE) simp_all
  show ?thesis
    by (rule delivered_invI) (simp_all add: s' delivered_invD(1,2)[OF d])
next
  case (Done i)
  from st have "step (Done i) s = Some s'" unfolding Done .
  then obtain l where i: "i < length (workers s)" and w: "workers s ! i = (l, Exiting)"
    and c: "(wg s < 1 \<and> s' = s\<lparr>panicked := Some ''sync: negative WaitGroup counter''\<rparr>) \<or>
     (1 \<le> wg s \<and> s' = (set_worker i Finished s)\<lparr>wg := wg s - 1\<rparr>)"
    by (rule step_DoneD)
  from c p have s': "s' = (set_worker i Finished s)\<lparr>wg := wg s - 1\<rparr>"
    by (elim disjE conjE) simp_all
  from i w have old: "(l, Exiting) \<in> set (workers s)" by (metis nth_mem)
  note D = delivered_invD[OF d]
  show ?thesis
  proof (rule delivered_invI)
    show "\<not> cancelled (Context (handle s'))" "key s' = k"
      using D(1,2) by (simp_all add: s')
    fix l' st' assume mem: "(l', st') \<in> set (workers s')" and m: "entry_match k l' \<noteq> None"
      and e: "st' = Exiting \<or> st' = Finished"
    from mem have "(l', st') \<in> set (workers (set_worker i Finished s))" by (simp add: s')
    then have "(l' = fst (workers s ! i) \<and> st' = Finished) \<or> (l', st') \<in> set (workers s)"
      by (rule set_worker_member)
    then have "\<exists>v. result s = Some (v, True)"
    proof
      assume "l' = fst (workers s ! i) \<and> st' = Finished"
      with w have "l' = l" by simp
      with D(3)[OF old] m show ?thesis by simp
    next
      assume "(l', st') \<in> set (workers s)"
      from D(3)[OF this m e] show ?thesis .
    qed
    then show "\<exists>v. result s' = Some (v, True)" by (simp add: s')
  qed
next
  case WaitReturn
  with st have s': "s' = s\<lparr>closer := Closing\<rparr>" by (simp split: if_splits)
  from d show ?thesis unfolding delivered_inv_def s' by simp
next
  case Close
  with st have "(ch_closed s \<and> s' = s\<lparr>panicked := Some ''close of closed channel''\<rparr>) \<or>
     (\<not> ch_closed s \<and> s' = s\<lparr>ch_closed := True, closer := Closed\<rparr>)"
    by (auto split: if_splits)
  with p have s': "s' = s\<lparr>ch_closed := True, closer := Closed\<rparr>"
    by (elim disjE conjE) simp_all
  from d show ?thesis unfolding delivered_inv_def s' by simp
next
  case RecvClosed
  with st have s': "s' = s\<lparr>result := Some ([], False)\<rparr>" and r: "result s = None"
    by (simp_all split: if_splits)
  note D = delivered_invD[OF d]
  show ?thesis
  proof (rule delivered_invI)
    show "\<not> cancelled (Context (handle s'))" "key s' = k"
      using D(1,2) by (simp_all add: s')
    fix l st assume "(l, st) \<in> set (workers s')" and m: "entry_match k l \<noteq> None"
      and e: "st = Exiting \<or> st = Finished"
    then have "(l, st) \<in> set (workers s)" by (simp add: s')
    from D(3)[OF this m e] r show "\<exists>v. result s' = Some (v, True)" by simp
  qed
qed

lemma delivered_run:
  "run acts s = Some s' \<Longrightarrow> Cancel \<notin> set acts \<Longrightarrow> lookup_inv env k s \<Longrightarrow> delivered_inv k s \<Longrightarrow>
   delivered_inv k s'"
proof (induction acts arbitrary: s)
  case Nil
  then show ?case by simp
next
  case (Cons act acts)
  then obtain s1 where s1: "step act s = Some s1" and r: "run acts s1 = Some s'"
    by (auto split: option.splits)
  from Cons.prems have act: "act \<noteq> Cancel" and acts: "Cancel \<notin> set acts" by auto
  have i1: "lookup_inv env k s1" by (rule inv_step[OF s1 Cons.prems(3)])
  then have "panicked s1 = None" by (rule lookup_invD(3))
  then have "delivered_inv k s1" by (rule delivered_step[OF s1 act Cons.prems(4)])
  from Cons.IH[OF r acts i1 this] show ?case .
qed

lemma delivered_init: "\<not> cancelled (Context a) \<Longrightarrow> delivered_inv k (LookupEnv_init a k)"
  by (simp add: delivered_inv_def LookupEnv_init_def)

subsection \<open>\<^verbatim>\<open>LookupEnv\<close>: runs under a cancelled context\<close>

lemma cancelled_step:
  assumes st: "step act s = Some s'" and d: "cancelled_inv s"
  shows "cancelled_inv s'"
proof (cases act)
  case Cancel
  with st d show ?thesis by (auto simp: cancelled_inv_def split: if_splits)
next
  case Spawn
  with st d show ?thesis by (auto simp: cancelled_inv_def split: if_splits)
next
  case (Select i)
  from st have "step (Select i) s = Some s'" unfolding Select .
  then obtain l st where s': "s' = set_worker i st s"
    and c: "st = Exiting \<or> (\<exists>v. st = Sending v \<and> entry_match (key s) l = Some v
       \<and> \<not> cancelled (Context (handle s)))"
    by (rule step_SelectD)
  with d have e: "st = Exiting" by (auto simp: cancelled_inv_def)
  have n: "(l', Sending v) \<notin> set (workers (set_worker i Exiting s))" for l' v
    using d by (auto simp: cancelled_inv_def dest!: set_worker_member)
  from d n show ?thesis unfolding cancelled_inv_def s' e by auto
next
  case (Transfer i)
  from st have "step (Transfer i) s = Some s'" unfolding Transfer .
  then obtain l v where "i < length (workers s)" "workers s ! i = (l, Sending v)"
    by (rule step_TransferD)
  then have "(l, Sending v) \<in> set (workers s)" by (metis nth_mem)
  with d show ?thesis by (simp add: cancelled_inv_def)
next
  case (Done i)
  from st have "step (Done i) s = Some s'" unfolding Done .
  then obtain l where
    c: "(wg s < 1 \<and> s' = s\<lparr>panicked := Some ''sync: negative WaitGroup counter''\<rparr>) \<or>
     (1 \<le> wg s \<and> s' = (set_worker i Finished s)\<lparr>wg := wg s - 1\<rparr>)"
    by (rule step_DoneD)
  have n: "(l', Sending v) \<notin> set (workers (set_worker i Finished s))" for l' v
    using d by (auto simp: cancelled_inv_def dest!: set_worker_member)
  from c show ?thesis
  proof
    assume "wg s < 1 \<and> s' = s\<lparr>panicked := Some ''sync: negative WaitGroup counter''\<rparr>"
    then have s': "s' = s\<lparr>panicked := Some ''sync: negative WaitGroup counter''\<rparr>" ..
    from d show ?thesis unfolding cancelled_inv_def s' by auto
  next
    assume "1 \<le> wg s \<and> s' = (set_worker i Finished s)\<lparr>wg := wg s - 1\<rparr>"
    then have s': "s' = (set_worker i Finished s)\<lparr>wg := wg s - 1\<rparr>" ..
    from d n show ?thesis unfolding cancelled_inv_def s' by auto
  qed
next
  case WaitReturn
  with st d show ?thesis by (auto simp: cancelled_inv_def split: if_splits)
next
  case Close
  with st d show ?thesis by (auto simp: cancelled_inv_def split: if_splits)
next
  case RecvClosed
  with st d show ?thesis by (auto simp: cancelled_inv_def split: if_splits)
qed

lemma cancelled_run: "run acts s = Some s' \<Longrightarrow> cancelled_inv s \<Longrightarrow> cancelled_inv s'"
proof (induction acts arbitrary: s)
  case Nil
  then show ?case by simp
next
  case (Cons act acts)
  then obtain s1 where s1: "step act s = Some s1" and r: "run acts s1 = Some s'"
    by (auto split: option.splits)
  from Cons.IH[OF r cancelled_step[OF s1 Cons.prems(2)]] show ?case .
qed

lemma cancelled_init: "cancelled (Context a) \<Longrightarrow> cancelled_inv (LookupEnv_init a k)"
  by (simp add: cancelled_inv_def LookupEnv_init_def)

subsection \<open>\<^verbatim>\<open>LookupEnv\<close>: what the caller receives\<close>

lemma in_map_filterD:
  "v \<in> set (List.map_filter f xs) \<Longrightarrow> \<exists>x \<in> set xs. f x = Some v"
  by (induction xs) (auto split: option.splits)

lemma closed_all_finished:
  assumes inv: "lookup_inv env k s" and c: "ch_closed s"
  shows "length (workers s) = length env" "\<forall>w \<in> set (workers s). snd w = Finished"
proof -
  note I = lookup_invD[OF inv]
  from c I(8) have "closer s \<noteq> Waiting" by simp
  then have "wg s = 0" by (rule I(7))
  with I(6) have l: "length env - length (workers s) = 0" and u: "unfinished (workers s) = 0"
    by simp_all
  from l I(4) show "length (workers s) = length env" by simp
  from u show "\<forall>w \<in> set (workers s). snd w = Finished" by (simp add: unfinished_zero)
qed

lemma unique_result:
  assumes inv: "lookup_inv env K s" and d: "delivered_inv K s"
    and i: "i < length env" and e: "spec_entry (env ! i) = Some (K, V)"
    and u: "\<forall>j < length env. j \<noteq> i \<longrightarrow> (\<forall>v. spec_entry (env ! j) \<noteq> Some (K, v))"
    and r: "result s = Some x"
  shows "x = (V, True)"
proof -
  note I = lookup_invD[OF inv]
  from I(10)[OF r] show ?thesis
  proof
    assume a: "x = ('''', False) \<and> ch_closed s"
    then have len: "length (workers s) = length env"
      and fin: "\<forall>w \<in> set (workers s). snd w = Finished"
      using closed_all_finished[OF inv] by simp_all
    from I(5) len have "map fst (workers s) = env" by simp
    then have "fst (workers s ! i) = env ! i" using i len by (metis nth_map)
    moreover have mem: "workers s ! i \<in> set (workers s)" using i len by simp
    moreover from mem fin have "snd (workers s ! i) = Finished" by blast
    ultimately have m1: "(env ! i, Finished) \<in> set (workers s)" by (metis prod.collapse)
    have m2: "entry_match K (env ! i) \<noteq> None" using e by (simp add: entry_match_spec)
    have m3: "Finished = Exiting \<or> Finished = Finished" by simp
    have "\<exists>v. result s = Some (v, True)" by (rule delivered_invD(3)[OF d m1 m2 m3])
    with r a show ?thesis by simp
  next
    assume b: "snd x \<and> fst x \<in> set (List.map_filter (entry_match K) env)"
    then obtain l where l: "l \<in> set env" and m: "entry_match K l = Some (fst x)"
      using in_map_filterD by fastforce
    from l obtain j where j: "j < length env" and lj: "env ! j = l"
      by (auto simp: in_set_conv_nth)
    from m lj have sj: "spec_entry (env ! j) = Some (K, fst x)" by (simp add: entry_match_spec)
    with u j have "j = i" by blast
    with sj e have "fst x = V" by simp
    with b show ?thesis by (cases x) simp
  qed
qed

text \<open>
  C1. When exactly one entry of the environment has the key portion \<open>K\<close>, with value
  \<open>V\<close>, and the context is not cancelled, every execution of \<^verbatim>\<open>LookupEnv(K)\<close>,
  whatever the schedule, is free of panics and bounded, can be completed to a return, and
  returns only \<^verbatim>\<open>(V, true)\<close>.
\<close>

theorem LookupEnv_unique_key:
  assumes i: "i < length (Environment a)"
    and e: "spec_entry (Environment a ! i) = Some (K, V)"
    and u: "\<forall>j < length (Environment a). j \<noteq> i \<longrightarrow> (\<forall>v. spec_entry (Environment a ! j) \<noteq> Some (K, v))"
    and nc: "\<not> cancelled (Context a)"
    and na: "Cancel \<notin> set acts"
    and r: "run acts (LookupEnv_init a K) = Some s"
  shows "panicked s = None \<and> length acts \<le> 4 * length (Environment a) + 5 \<and>
    (\<exists>acts' s'. Cancel \<notin> set acts' \<and> run (acts @ acts') (LookupEnv_init a K) = Some s' \<and>
        result s' = Some (V, True)) \<and>
    (\<forall>x. result s = Some x \<longrightarrow> x = (V, True))"
proof -
  let ?env = "Environment a"
  have inv: "lookup_inv ?env K s" by (rule inv_run[OF r inv_init])
  have d: "delivered_inv K s" by (rule delivered_run[OF r na inv_init delivered_init[OF nc]])
  have p: "panicked s = None" by (rule lookup_invD(3)[OF inv])
  have b: "length acts \<le> 4 * length ?env + 5"
    using run_decreases[OF r] steps_left_init[of a K] by simp
  from completion[OF inv] obtain acts' s' where c: "Cancel \<notin> set acts'"
    and r': "run acts' s = Some s'" and res: "result s' \<noteq> None" by blast
  have inv': "lookup_inv ?env K s'" by (rule inv_run[OF r' inv])
  have d': "delivered_inv K s'" by (rule delivered_run[OF r' c inv d])
  from res obtain x where x: "result s' = Some x" by blast
  from unique_result[OF inv' d' i e u x] x have "result s' = Some (V, True)" by simp
  moreover have "run (acts @ acts') (LookupEnv_init a K) = Some s'"
    using r r' by (simp add: run_append)
  ultimately have ex: "\<exists>acts' s'. Cancel \<notin> set acts' \<and>
      run (acts @ acts') (LookupEnv_init a K) = Some s' \<and> result s' = Some (V, True)"
    using c by blast
  have "\<forall>x. result s = Some x \<longrightarrow> x = (V, True)"
    using unique_result[OF inv d i e u] by blast
  with p b ex show ?thesis by blast
qed

lemmas lookup_eval = LookupEnv_init_def newApp_def set_worker_def entry_match_def SplitN2_def
  spec_entry_def

theorem LookupEnv_unique_key_witness:
  "\<exists>s. run [Spawn, Spawn, Select 1, Spawn, Select 0, Transfer 1]
          (LookupEnv_init (newApp [''HOME=/home/test'', ''PATH=/bin'', ''TEST=true''] []) ''PATH'')
        = Some s \<and> result s = Some (''/bin'', True) \<and> panicked s = None"
proof -
  let ?a = "newApp [''HOME=/home/test'', ''PATH=/bin'', ''TEST=true''] []"
  let ?acts = "[Spawn, Spawn, Select 1, Spawn, Select 0, Transfer 1]"
  have "\<exists>s. run ?acts (LookupEnv_init ?a ''PATH'') = Some s \<and> result s \<noteq> None"
    by (simp add: lookup_eval del: not_None_eq)
  then obtain s where r: "run ?acts (LookupEnv_init ?a ''PATH'') = Some s"
    and res: "result s \<noteq> None" by blast
  have h1: "1 < length (Environment ?a)" by (simp add: newApp_def)
  have h2: "spec_entry (Environment ?a ! 1) = Some (''PATH'', ''/bin'')" by (simp add: lookup_eval)
  have h3: "\<forall>j < length (Environment ?a). j \<noteq> 1 \<longrightarrow>
      (\<forall>v. spec_entry (Environment ?a ! j) \<noteq> Some (''PATH'', v))"
    by (simp add: lookup_eval less_Suc_eq nth_Cons')
  have h4: "\<not> cancelled (Context ?a)" by (simp add: newApp_def)
  have h5: "Cancel \<notin> set ?acts" by simp
  from LookupEnv_unique_key[OF h1 h2 h3 h4 h5 r] res
  have "result s = Some (''/bin'', True) \<and> panicked s = None" by blast
  with r show ?thesis by blast
qed

lemma missing_result:
  assumes inv: "lookup_inv env K s"
    and m: "\<forall>l \<in> set env. \<forall>v. spec_entry l \<noteq> Some (K, v)"
    and r: "result s = Some x"
  shows "x = ('''', False)"
proof -
  from lookup_invD(10)[OF inv r] show ?thesis
  proof
    assume "x = ('''', False) \<and> ch_closed s"
    then show ?thesis ..
  next
    assume "snd x \<and> fst x \<in> set (List.map_filter (entry_match K) env)"
    then obtain l where "l \<in> set env" and "entry_match K l = Some (fst x)"
      using in_map_filterD by fastforce
    with m show ?thesis by (simp add: entry_match_spec)
  qed
qed

lemma cancelled_result: "cancelled_inv s \<Longrightarrow> result s = Some x \<Longrightarrow> x = ('''', False)"
  by (simp add: cancelled_inv_def)

text \<open>
  C2. When no entry of the environment has the key portion \<open>K\<close> (an entry without
  \<^verbatim>\<open>=\<close> has none, and the list may be empty), every execution of \<^verbatim>\<open>LookupEnv(K)\<close>,
  whatever the schedule and whenever the context is cancelled, is free of panics and
  bounded, can be completed to a return, and returns only \<^verbatim>\<open>("", false)\<close>. An entry
  without \<^verbatim>\<open>=\<close> passes the test of a worker for no key.
\<close>

theorem LookupEnv_missing_key:
  assumes m: "\<forall>l \<in> set (Environment a). \<forall>v. spec_entry l \<noteq> Some (K, v)"
    and r: "run acts (LookupEnv_init a K) = Some s"
  shows "panicked s = None \<and> length acts \<le> 4 * length (Environment a) + 5 \<and>
    (\<exists>acts' s'. run (acts @ acts') (LookupEnv_init a K) = Some s' \<and>
        result s' = Some ('''', False)) \<and>
    (\<forall>x. result s = Some x \<longrightarrow> x = ('''', False)) \<and>
    (\<forall>l k. CHR ''='' \<notin> set l \<longrightarrow> spec_entry l = None \<and> entry_match k l = None)"
proof -
  let ?env = "Environment a"
  have inv: "lookup_inv ?env K s" by (rule inv_run[OF r inv_init])
  have p: "panicked s = None" by (rule lookup_invD(3)[OF inv])
  have b: "length acts \<le> 4 * length ?env + 5"
    using run_decreases[OF r] steps_left_init[of a K] by simp
  from completion[OF inv] obtain acts' s' where
    r': "run acts' s = Some s'" and res: "result s' \<noteq> None" by blast
  have inv': "lookup_inv ?env K s'" by (rule inv_run[OF r' inv])
  from res obtain x where x: "result s' = Some x" by blast
  from missing_result[OF inv' m x] x have "result s' = Some ('''', False)" by simp
  moreover have "run (acts @ acts') (LookupEnv_init a K) = Some s'"
    using r r' by (simp add: run_append)
  ultimately have ex: "\<exists>acts' s'. run (acts @ acts') (LookupEnv_init a K) = Some s' \<and>
      result s' = Some ('''', False)"
    by blast
  have all: "\<forall>x. result s = Some x \<longrightarrow> x = ('''', False)"
    using missing_result[OF inv m] by blast
  have mal: "\<forall>l k. CHR ''='' \<notin> set l \<longrightarrow> spec_entry l = None \<and> entry_match k l = None"
    by (simp add: entry_match_malformed spec_entry_def)
  from p b ex all mal show ?thesis by blast
qed

theorem LookupEnv_missing_key_witness:
  "\<exists>s. run [Spawn, Select 0, Cancel, Spawn, Done 0, Select 1, Done 1, WaitReturn, Close, RecvClosed]
          (LookupEnv_init (newApp [''MISSING'', ''PATH=/bin''] []) ''MISSING'')
        = Some s \<and> result s = Some ('''', False) \<and> panicked s = None"
proof -
  let ?a = "newApp [''MISSING'', ''PATH=/bin''] []"
  let ?acts = "[Spawn, Select 0, Cancel, Spawn, Done 0, Select 1, Done 1, WaitReturn, Close, RecvClosed]"
  have "\<exists>s. run ?acts (LookupEnv_init ?a ''MISSING'') = Some s \<and> result s \<noteq> None"
    by (simp add: lookup_eval del: not_None_eq)
  then obtain s where r: "run ?acts (LookupEnv_init ?a ''MISSING'') = Some s"
    and res: "result s \<noteq> None" by blast
  have h: "\<forall>l \<in> set (Environment ?a). \<forall>v. spec_entry l \<noteq> Some (''MISSING'', v)"
    by (simp add: lookup_eval)
  from LookupEnv_missing_key[OF h r] res
  have "result s = Some ('''', False) \<and> panicked s = None" by blast
  with r show ?thesis by blast
qed

text \<open>
  C3. When the context is cancelled before \<^verbatim>\<open>LookupEnv(K)\<close> is called, every execution,
  whatever the environment holds, is free of panics and bounded, can be completed to a
  return, and returns only \<^verbatim>\<open>("", false)\<close>.
\<close>

theorem LookupEnv_cancelled:
  assumes c: "cancelled (Context a)"
    and r: "run acts (LookupEnv_init a K) = Some s"
  shows "panicked s = None \<and> length acts \<le> 4 * length (Environment a) + 5 \<and>
    (\<exists>acts' s'. run (acts @ acts') (LookupEnv_init a K) = Some s' \<and>
        result s' = Some ('''', False)) \<and>
    (\<forall>x. result s = Some x \<longrightarrow> x = ('''', False))"
proof -
  let ?env = "Environment a"
  have inv: "lookup_inv ?env K s" by (rule inv_run[OF r inv_init])
  have ci: "cancelled_inv s" by (rule cancelled_run[OF r cancelled_init[OF c]])
  have p: "panicked s = None" by (rule lookup_invD(3)[OF inv])
  have b: "length acts \<le> 4 * length ?env + 5"
    using run_decreases[OF r] steps_left_init[of a K] by simp
  from completion[OF inv] obtain acts' s' where
    r': "run acts' s = Some s'" and res: "result s' \<noteq> None" by blast
  have ci': "cancelled_inv s'" by (rule cancelled_run[OF r' ci])
  from res obtain x where x: "result s' = Some x" by blast
  from cancelled_result[OF ci' x] x have "result s' = Some ('''', False)" by simp
  moreover have "run (acts @ acts') (LookupEnv_init a K) = Some s'"
    using r r' by (simp add: run_append)
  ultimately have ex: "\<exists>acts' s'. run (acts @ acts') (LookupEnv_init a K) = Some s' \<and>
      result s' = Some ('''', False)"
    by blast
  have all: "\<forall>x. result s = Some x \<longrightarrow> x = ('''', False)"
    using cancelled_result[OF ci] by blast
  from p b ex all show ?thesis by blast
qed

theorem LookupEnv_cancelled_witness:
  "\<exists>s. run [Spawn, Spawn, Select 0, Spawn, Select 2, Select 1, Done 1, Done 0, Done 2,
            WaitReturn, Close, RecvClosed]
          (LookupEnv_init
             ((newApp [''HOME=/home/test'', ''PATH=/bin'', ''TEST=true''] [])\<lparr>Context := Ctx True\<rparr>)
             ''HOME'')
        = Some s \<and> result s = Some ('''', False) \<and> panicked s = None"
proof -
  let ?a = "(newApp [''HOME=/home/test'', ''PATH=/bin'', ''TEST=true''] [])\<lparr>Context := Ctx True\<rparr>"
  let ?acts = "[Spawn, Spawn, Select 0, Spawn, Select 2, Select 1, Done 1, Done 0, Done 2,
            WaitReturn, Close, RecvClosed]"
  have "\<exists>s. run ?acts (LookupEnv_init ?a ''HOME'') = Some s \<and> result s \<noteq> None"
    by (simp add: lookup_eval del: not_None_eq)
  then obtain s where r: "run ?acts (LookupEnv_init ?a ''HOME'') = Some s"
    and res: "result s \<noteq> None" by blast
  have h: "cancelled (Context ?a)" by (simp add: newApp_def)
  from LookupEnv_cancelled[OF h r] res
  have "result s = Some ('''', False) \<and> panicked s = None" by blast
  with r show ?thesis by blast
qed

subsection \<open>The error channel\<close>

lemma ensureErrorChannel_set:
  "errch (app w) = Some c \<Longrightarrow> ensureErrorChannel w = w"
  by (simp add: ensureErrorChannel_def)

lemma Errors_set: "errch (app w) = Some c \<Longrightarrow> Errors w = (Some c, w)"
  by (simp add: Errors_def ensureErrorChannel_set)

lemma ensureErrorChannel_unused:
  assumes "errch_unused w"
  shows "\<exists>c. errch (app (ensureErrorChannel w)) = Some c \<and>
    chans (ensureErrorChannel w) c = \<lparr>buffer = [], capacity = 1, isClosed = False\<rparr> \<and>
    (\<forall>c0. errch (app w) = Some c0 \<longrightarrow> c0 = c)"
  using assms
  by (cases "errch (app w)") (simp_all add: errch_unused_def ensureErrorChannel_def Let_def)

lemma HandleError_unused:
  assumes u: "errch_unused w"
  shows "\<exists>c w1. HandleError e w = (Return, w1) \<and> errch (app w1) = Some c \<and>
    chans w1 c = \<lparr>buffer = [e], capacity = 1, isClosed = True\<rparr> \<and>
    (\<forall>c0. errch (app w) = Some c0 \<longrightarrow> c0 = c)"
proof -
  from ensureErrorChannel_unused[OF u]
  obtain c where c: "errch (app (ensureErrorChannel w)) = Some c"
    and ch: "chans (ensureErrorChannel w) c = \<lparr>buffer = [], capacity = 1, isClosed = False\<rparr>"
    and same: "\<forall>c0. errch (app w) = Some c0 \<longrightarrow> c0 = c"
    by blast
  let ?w0 = "ensureErrorChannel w"
  let ?w1 = "?w0\<lparr>chans := (chans ?w0)(c := \<lparr>buffer = [e], capacity = 1, isClosed = True\<rparr>)\<rparr>"
  have "HandleError e w = (Return, ?w1)"
    using c ch by (simp add: HandleError_def send_def close_chan_def Let_def)
  moreover have "errch (app ?w1) = Some c" using c by simp
  moreover have "chans ?w1 c = \<lparr>buffer = [e], capacity = 1, isClosed = True\<rparr>" by simp
  ultimately show ?thesis using same by blast
qed

lemma recvs_drained:
  "buffer (chans w c) = [] \<Longrightarrow> isClosed (chans w c) \<Longrightarrow>
   recvs n c w = (replicate n (Some (None, False)), w)"
  by (induction n) (simp_all add: recv_def)

lemma recvs_after_HandleError:
  assumes ch: "chans w c = \<lparr>buffer = [e], capacity = 1, isClosed = True\<rparr>"
  shows "fst (recvs (Suc n) c w) = Some (e, True) # replicate n (Some (None, False))"
proof -
  let ?w = "w\<lparr>chans := (chans w)(c := \<lparr>buffer = [], capacity = 1, isClosed = True\<rparr>)\<rparr>"
  have "recv c w = (Some (e, True), ?w)" using ch by (simp add: recv_def)
  moreover have "recvs n c ?w = (replicate n (Some (None, False)), ?w)"
    by (rule recvs_drained) simp_all
  ultimately show ?thesis by simp
qed

lemma recv_frame:
  "errch (app (snd (recv c w))) = errch (app w)"
  "isClosed (chans (snd (recv c w)) c') = isClosed (chans w c')"
  by (auto simp: recv_def Let_def split: list.splits)


text \<open>Once the channel of the handle is closed, everything later leaves it closed.\<close>

lemma Logger_locked_frame:
  "app (snd (Logger_locked w)) = (app w)\<lparr>logger := Some (fst (Logger_locked w))\<rparr>"
  "chans (snd (Logger_locked w)) = chans w"
  by (auto simp: Logger_locked_def Let_def split: option.splits)

lemma Exit_frame:
  "chans (snd (snd (Exit code w))) = chans w"
  "errch (app (snd (snd (Exit code w)))) = errch (app w)"
  "Arguments (app (snd (snd (Exit code w)))) = Arguments (app w)"
  "Environment (app (snd (snd (Exit code w)))) = Environment (app w)"
  by (auto simp: Exit_def Exit_teardown_def Let_def
      split: option.splits sum.splits handler_result.splits prod.splits if_splits)

lemma HandleError_closed:
  "errch (app w) = Some c \<Longrightarrow> isClosed (chans w c) \<Longrightarrow>
   HandleError e w = (Panic (ErrorValue ''send on closed channel''), w)"
  by (simp add: HandleError_def ensureErrorChannel_set send_def)

lemma apply_op_closed:
  assumes c: "errch (app w) = Some c" and cl: "isClosed (chans w c)"
  shows "errch (app (apply_op x w)) = Some c \<and> isClosed (chans (apply_op x w) c) \<and>
    (x \<noteq> Receive \<longrightarrow> chans (apply_op x w) c = chans w c)"
proof (cases x)
  case CallLogger
  then show ?thesis
    using c cl Logger_locked_frame[of w]
    by (cases "Logger_locked w") (simp add: Logger_def)
next
  case CallErrors
  then show ?thesis using c cl by (simp add: Errors_set)
next
  case (CallExit code)
  then show ?thesis using c cl by (simp add: Exit_frame)
next
  case (CallHandleError err)
  then show ?thesis using c cl by (simp add: HandleError_closed)
next
  case Receive
  then show ?thesis using c cl recv_frame(1)[of c w] recv_frame(2)[of c w c]
    by (simp add: Errors_set)
qed

lemma fold_apply_op_closed:
  "errch (app w) = Some c \<Longrightarrow> isClosed (chans w c) \<Longrightarrow>
   errch (app (fold apply_op ops w)) = Some c \<and> isClosed (chans (fold apply_op ops w) c) \<and>
   (Receive \<notin> set ops \<longrightarrow> chans (fold apply_op ops w) c = chans w c)"
proof (induction ops arbitrary: w)
  case Nil
  then show ?case by simp
next
  case (Cons x ops)
  from apply_op_closed[OF Cons.prems, of x]
  have 1: "errch (app (apply_op x w)) = Some c" and 2: "isClosed (chans (apply_op x w) c)"
    and 3: "x \<noteq> Receive \<longrightarrow> chans (apply_op x w) c = chans w c" by simp_all
  from Cons.IH[OF 1 2] 3 show ?case by auto
qed

text \<open>
  C6. After one call \<^verbatim>\<open>HandleError(e1)\<close> on a handle whose channel was unused, and after
  any calls and receives that follow it, a call \<^verbatim>\<open>HandleError(e2)\<close> panics (the send
  meets the closed channel) and changes nothing: the second error is neither delivered nor
  dropped in silence.
\<close>

theorem HandleError_twice_panics:
  assumes u: "errch_unused w"
  shows "\<exists>w1. HandleError e1 w = (Return, w1) \<and>
     (\<forall>ops e2. HandleError e2 (fold apply_op ops w1) =
        (Panic (ErrorValue ''send on closed channel''), fold apply_op ops w1))"
proof -
  from HandleError_unused[OF u, of e1]
  obtain c w1 where h: "HandleError e1 w = (Return, w1)" and c: "errch (app w1) = Some c"
    and ch: "chans w1 c = \<lparr>buffer = [e1], capacity = 1, isClosed = True\<rparr>"
    by blast
  from ch have cl: "isClosed (chans w1 c)" by simp
  have "HandleError e2 (fold apply_op ops w1) =
      (Panic (ErrorValue ''send on closed channel''), fold apply_op ops w1)" for ops e2
  proof -
    from fold_apply_op_closed[OF c cl, of ops]
    have 1: "errch (app (fold apply_op ops w1)) = Some c"
      and 2: "isClosed (chans (fold apply_op ops w1) c)" by blast+
    then show ?thesis by (rule HandleError_closed)
  qed
  with h show ?thesis by blast
qed

theorem HandleError_twice_panics_witness:
  "\<exists>w1. HandleError (Some ''test error'') (new_world (newApp [] [])) = (Return, w1) \<and>
     fst (HandleError (Some ''test error'') (fold apply_op [Receive, Receive] w1))
       = Panic (ErrorValue ''send on closed channel'')"
proof -
  have u: "errch_unused (new_world (newApp [] []))"
    by (simp add: errch_unused_def new_world_def newApp_def)
  from HandleError_twice_panics[OF u, of "Some ''test error''"]
  obtain w1 where h: "HandleError (Some ''test error'') (new_world (newApp [] [])) = (Return, w1)"
    and p: "\<forall>ops e2. HandleError e2 (fold apply_op ops w1) =
        (Panic (ErrorValue ''send on closed channel''), fold apply_op ops w1)"
    by blast
  from p have "HandleError (Some ''test error'') (fold apply_op [Receive, Receive] w1) =
        (Panic (ErrorValue ''send on closed channel''), fold apply_op [Receive, Receive] w1)"
    by blast
  with h show ?thesis by (metis fst_conv)
qed

text \<open>
  C10. On a handle whose channel is unused, \<^verbatim>\<open>HandleError(e)\<close> returns with no reader
  present: the channel that \<^verbatim>\<open>ensureErrorChannel\<close> provides has capacity one, so the send
  is queued. After any later calls that do not receive, a reader that calls \<^verbatim>\<open>Errors\<close>
  gets that channel and receives \<^verbatim>\<open>(e, true)\<close>, then \<^verbatim>\<open>(nil, false)\<close>.
\<close>

theorem HandleError_needs_no_reader:
  assumes u: "errch_unused w"
  shows "fst (HandleError e w) = Return \<and>
     (\<exists>c. errch (app (ensureErrorChannel w)) = Some c \<and>
        capacity (chans (ensureErrorChannel w) c) = 1 \<and>
        (\<forall>ops. Receive \<notin> set ops \<longrightarrow>
           Errors (fold apply_op ops (snd (HandleError e w)))
             = (Some c, fold apply_op ops (snd (HandleError e w))) \<and>
           fst (recvs 2 c (fold apply_op ops (snd (HandleError e w))))
             = [Some (e, True), Some (None, False)]))"
proof -
  from ensureErrorChannel_unused[OF u]
  obtain c0 where c0: "errch (app (ensureErrorChannel w)) = Some c0"
    and cap: "chans (ensureErrorChannel w) c0 = \<lparr>buffer = [], capacity = 1, isClosed = False\<rparr>"
    by blast
  from HandleError_unused[OF u, of e]
  obtain c w1 where h: "HandleError e w = (Return, w1)" and c: "errch (app w1) = Some c"
    and ch: "chans w1 c = \<lparr>buffer = [e], capacity = 1, isClosed = True\<rparr>"
    by blast
  have "errch (app w1) = errch (app (ensureErrorChannel w))"
    using h c0 by (auto simp: HandleError_def send_def close_chan_def Let_def split: if_splits)
  with c c0 have cc: "c0 = c" by simp
  from ch have cl: "isClosed (chans w1 c)" by simp
  have later: "Errors (fold apply_op ops w1) = (Some c, fold apply_op ops w1) \<and>
       fst (recvs 2 c (fold apply_op ops w1)) = [Some (e, True), Some (None, False)]"
    if "Receive \<notin> set ops" for ops
  proof -
    from fold_apply_op_closed[OF c cl, of ops] that
    have 1: "errch (app (fold apply_op ops w1)) = Some c"
      and 2: "chans (fold apply_op ops w1) c = \<lparr>buffer = [e], capacity = 1, isClosed = True\<rparr>"
      using ch by simp_all
    from recvs_after_HandleError[OF 2, of 1]
    have "fst (recvs 2 c (fold apply_op ops w1)) = [Some (e, True), Some (None, False)]"
      by (simp add: numeral_2_eq_2)
    with Errors_set[OF 1] show ?thesis by simp
  qed
  have "fst (HandleError e w) = Return" using h by simp
  moreover have "capacity (chans (ensureErrorChannel w) c) = 1" using cap cc by simp
  moreover have "errch (app (ensureErrorChannel w)) = Some c" using c0 cc by simp
  moreover have "snd (HandleError e w) = w1" using h by simp
  ultimately show ?thesis using later by auto
qed

theorem HandleError_needs_no_reader_witness:
  "fst (HandleError (Some ''test error'') (new_world (newApp [] []))) = Return \<and>
   (\<exists>c. Errors (fold apply_op [CallLogger, CallErrors]
                 (snd (HandleError (Some ''test error'') (new_world (newApp [] [])))))
          = (Some c, fold apply_op [CallLogger, CallErrors]
                 (snd (HandleError (Some ''test error'') (new_world (newApp [] []))))) \<and>
        fst (recvs 2 c (fold apply_op [CallLogger, CallErrors]
                 (snd (HandleError (Some ''test error'') (new_world (newApp [] []))))))
          = [Some (Some ''test error'', True), Some (None, False)])"
proof -
  have u: "errch_unused (new_world (newApp [] []))"
    by (simp add: errch_unused_def new_world_def newApp_def)
  have n: "Receive \<notin> set [CallLogger, CallErrors]" by simp
  from HandleError_needs_no_reader[OF u, of "Some ''test error''"] n
  show ?thesis by blast
qed

subsection \<open>\<^verbatim>\<open>Exit\<close>\<close>

lemma Exit_handler:
  assumes mu: "\<not> loggerMu (app w)" and t: "Exit_teardown w = Inr (evs, w')"
    and h: "ExitHandler (app w) = Some h"
  shows "Exit code w =
    (handler_outcome (h code), evs @ handler_events code (logger (app w')) (h code), w')"
proof -
  from t have "ExitHandler (app w') = ExitHandler (app w)"
    by (auto simp: Exit_teardown_def Let_def split: option.splits if_splits)
  with mu t h show ?thesis
    by (cases "h code") (simp_all add: Exit_def)
qed

text \<open>
  C7, as stated, fails: with an initialized logger whose shutdown reports an error,
  \<^verbatim>\<open>Exit(255)\<close> panics with that error; the configured handler is not called and the
  logger reference stays.
\<close>

theorem Exit_failed_shutdown_counterexample:
  "ExitHandler (app failing_sink_world) \<noteq> None \<and>
   logger (app failing_sink_world) = Some 0 \<and>
   fst (Exit 255 failing_sink_world) = ExitPanic (ErrorValue ''sink failed'') \<and>
   fst (snd (Exit 255 failing_sink_world)) = [ShutdownLoggers 0] \<and>
   logger (app (snd (snd (Exit 255 failing_sink_world)))) = Some 0"
  by (simp add: failing_sink_world_def Logger_locked_def new_world_def newApp_def Exit_def
      Exit_teardown_def Let_def)

text \<open>
  C7, amended. On a handle with a configured exit handler and a free logger mutex:
  unless the shutdown of an initialized logger reports an error, \<^verbatim>\<open>Exit(code)\<close> calls
  the handler once, with \<open>code\<close>, after the teardown: a logger that exists is shut down
  when it is initialized and the reference is \<^verbatim>\<open>nil\<close> when the handler is called; with
  no logger nothing is torn down. When the shutdown reports an error, \<^verbatim>\<open>Exit\<close> panics
  with it, the handler is not called, and the reference and the held mutex stay.
\<close>

theorem Exit_teardown_then_handler:
  assumes mu: "\<not> loggerMu (app w)" and h: "ExitHandler (app w) = Some h"
  shows "(logger (app w) = None \<longrightarrow>
            Exit code w = (handler_outcome (h code), handler_events code None (h code), w)) \<and>
         (\<forall>p. logger (app w) = Some p \<and> \<not> isInitialized (bases w p) \<longrightarrow>
            Exit code w = (handler_outcome (h code), handler_events code None (h code),
                           w\<lparr>app := (app w)\<lparr>logger := None\<rparr>\<rparr>)) \<and>
         (\<forall>p. logger (app w) = Some p \<and> isInitialized (bases w p) \<and>
              shutdownErr (bases w p) = None \<longrightarrow>
            Exit code w = (handler_outcome (h code),
                           ShutdownLoggers p # handler_events code None (h code),
                           w\<lparr>app := (app w)\<lparr>logger := None\<rparr>,
                             bases := (bases w)(p := (bases w p)\<lparr>isInitialized := False\<rparr>)\<rparr>)) \<and>
         (\<forall>p err. logger (app w) = Some p \<and> isInitialized (bases w p) \<and>
              shutdownErr (bases w p) = Some err \<longrightarrow>
            Exit code w = (ExitPanic (ErrorValue err), [ShutdownLoggers p],
                           w\<lparr>app := (app w)\<lparr>loggerMu := True\<rparr>\<rparr>))"
proof (intro conjI allI impI)
  assume n: "logger (app w) = None"
  with mu have "Exit_teardown w = Inr ([], w)" by (simp add: Exit_teardown_def)
  from Exit_handler[OF mu this h] n
  show "Exit code w = (handler_outcome (h code), handler_events code None (h code), w)" by simp
next
  fix p assume a: "logger (app w) = Some p \<and> \<not> isInitialized (bases w p)"
  with mu have "Exit_teardown w = Inr ([], w\<lparr>app := (app w)\<lparr>logger := None\<rparr>\<rparr>)"
    by (simp add: Exit_teardown_def)
  from Exit_handler[OF mu this h]
  show "Exit code w = (handler_outcome (h code), handler_events code None (h code),
      w\<lparr>app := (app w)\<lparr>logger := None\<rparr>\<rparr>)" by simp
next
  fix p assume a: "logger (app w) = Some p \<and> isInitialized (bases w p) \<and>
      shutdownErr (bases w p) = None"
  with mu have "Exit_teardown w = Inr ([ShutdownLoggers p],
      w\<lparr>app := (app w)\<lparr>logger := None\<rparr>,
        bases := (bases w)(p := (bases w p)\<lparr>isInitialized := False\<rparr>)\<rparr>)"
    by (simp add: Exit_teardown_def)
  from Exit_handler[OF mu this h]
  show "Exit code w = (handler_outcome (h code), ShutdownLoggers p # handler_events code None (h code),
      w\<lparr>app := (app w)\<lparr>logger := None\<rparr>,
        bases := (bases w)(p := (bases w p)\<lparr>isInitialized := False\<rparr>)\<rparr>)" by simp
next
  fix p err assume a: "logger (app w) = Some p \<and> isInitialized (bases w p) \<and>
      shutdownErr (bases w p) = Some err"
  with mu show "Exit code w = (ExitPanic (ErrorValue err), [ShutdownLoggers p],
      w\<lparr>app := (app w)\<lparr>loggerMu := True\<rparr>\<rparr>)"
    by (simp add: Exit_def Exit_teardown_def)
qed

theorem Exit_teardown_then_handler_witness:
  "Exit 255 (new_world (newApp [] [])) =
     (ExitPanic (StringValue ''system exit 255''), [HandlerCalled 255 None], new_world (newApp [] [])) \<and>
   fst (snd (Exit 255 (snd (Logger_locked (new_world (newApp [] [])))))) =
     [ShutdownLoggers 0, HandlerCalled 255 None] \<and>
   logger (app (snd (snd (Exit 255 (snd (Logger_locked (new_world (newApp [] [])))))))) = None \<and>
   \<not> isInitialized (bases (snd (snd (Exit 255 (snd (Logger_locked (new_world (newApp [] []))))))) 0) \<and>
   fst (Exit 255 failing_sink_world) = ExitPanic (ErrorValue ''sink failed'')"
proof -
  let ?w0 = "new_world (newApp [] [])"
  let ?w1 = "snd (Logger_locked ?w0)"
  let ?h = "\<lambda>code::int. Panics (''system exit '' @ Sprintf_d code)"
  have mu0: "\<not> loggerMu (app ?w0)" and h0: "ExitHandler (app ?w0) = Some ?h"
    and l0: "logger (app ?w0) = None"
    by (simp_all add: new_world_def newApp_def)
  have mu1: "\<not> loggerMu (app ?w1)" and h1: "ExitHandler (app ?w1) = Some ?h"
    and l1: "logger (app ?w1) = Some 0 \<and> isInitialized (bases ?w1 0) \<and>
      shutdownErr (bases ?w1 0) = None"
    by (simp_all add: new_world_def newApp_def Logger_locked_def Let_def)
  have mu2: "\<not> loggerMu (app failing_sink_world)"
    and h2: "ExitHandler (app failing_sink_world) = Some ?h"
    and l2: "logger (app failing_sink_world) = Some 0 \<and>
      isInitialized (bases failing_sink_world 0) \<and>
      shutdownErr (bases failing_sink_world 0) = Some ''sink failed''"
    by (simp_all add: failing_sink_world_def new_world_def newApp_def Logger_locked_def Let_def)
  from Exit_teardown_then_handler[OF mu0 h0, of 255] l0
  have a: "Exit 255 ?w0 = (ExitPanic (StringValue ''system exit 255''), [HandlerCalled 255 None], ?w0)"
    by (simp add: Sprintf_d_def decimal.simps)
  from Exit_teardown_then_handler[OF mu1 h1, of 255] l1
  have "Exit 255 ?w1 = (ExitPanic (StringValue ''system exit 255''),
      [ShutdownLoggers 0, HandlerCalled 255 None],
      ?w1\<lparr>app := (app ?w1)\<lparr>logger := None\<rparr>,
          bases := (bases ?w1)(0 := (bases ?w1 0)\<lparr>isInitialized := False\<rparr>)\<rparr>)"
    by (simp add: Sprintf_d_def decimal.simps)
  then have b: "fst (snd (Exit 255 ?w1)) = [ShutdownLoggers 0, HandlerCalled 255 None]"
    and c: "logger (app (snd (snd (Exit 255 ?w1)))) = None"
    and d: "\<not> isInitialized (bases (snd (snd (Exit 255 ?w1))) 0)"
    by simp_all
  from Exit_teardown_then_handler[OF mu2 h2, of 255] l2
  have e: "fst (Exit 255 failing_sink_world) = ExitPanic (ErrorValue ''sink failed'')"
    by simp
  from a b c d e show ?thesis by blast
qed

text \<open>
  C8. With a configured handler: when the handler returns control to \<^verbatim>\<open>Exit\<close>, the
  call ends in the panic \<^verbatim>\<open>"exit handler returned"\<close>, and the return of the handler is
  the last thing before it; and a handler that returns does so whenever it is called.
\<close>

theorem Exit_handler_returned_panics:
  assumes h: "ExitHandler (app w) = Some h" and e: "Exit code w = (out, evs, w')"
  shows "(HandlerReturned \<in> set evs \<longrightarrow>
            h code = Returns \<and> out = ExitPanic (StringValue ''exit handler returned'') \<and>
            (\<exists>pre. evs = pre @ [HandlerCalled code None, HandlerReturned])) \<and>
         (h code = Returns \<and> (\<exists>l. HandlerCalled code l \<in> set evs) \<longrightarrow>
            HandlerReturned \<in> set evs)"
proof (cases "loggerMu (app w)")
  case True
  with e show ?thesis by (simp add: Exit_def)
next
  case mu: False
  show ?thesis
  proof (cases "Exit_teardown w")
    case (Inl a)
    then obtain v evs0 w0 where a: "Exit_teardown w = Inl (v, evs0, w0)" by (cases a) auto
    then have "evs0 = [ShutdownLoggers (the (logger (app w)))]"
      by (auto simp: Exit_teardown_def Let_def split: option.splits if_splits)
    with a mu e show ?thesis by (auto simp: Exit_def)
  next
    case (Inr b)
    then obtain evs0 w0 where b: "Exit_teardown w = Inr (evs0, w0)" by (cases b) auto
    then have l: "logger (app w0) = None"
      and s: "set evs0 \<subseteq> {ShutdownLoggers (the (logger (app w)))}"
      by (auto simp: Exit_teardown_def Let_def split: option.splits if_splits)
    from Exit_handler[OF mu b h, of code] e l
    have out: "out = handler_outcome (h code)"
      and evs: "evs = evs0 @ handler_events code None (h code)" by simp_all
    show ?thesis
    proof (cases "h code")
      case Returns
      with out evs show ?thesis by auto
    next
      case (Panics v)
      with evs s show ?thesis by auto
    next
      case NoReturn
      with evs s show ?thesis by auto
    qed
  qed
qed

theorem Exit_handler_returned_panics_witness:
  "fst (Exit 255 (new_world ((newApp [] [])\<lparr>ExitHandler := Some (\<lambda>code. Returns)\<rparr>)))
     = ExitPanic (StringValue ''exit handler returned'') \<and>
   fst (snd (Exit 255 (new_world ((newApp [] [])\<lparr>ExitHandler := Some (\<lambda>code. Returns)\<rparr>))))
     = [HandlerCalled 255 None, HandlerReturned]"
proof -
  let ?w = "new_world ((newApp [] [])\<lparr>ExitHandler := Some (\<lambda>code. Returns)\<rparr>)"
  have h: "ExitHandler (app ?w) = Some (\<lambda>code. Returns)" by (simp add: new_world_def)
  obtain out evs w' where e: "Exit 255 ?w = (out, evs, w')" by (cases "Exit 255 ?w")
  moreover from e have c: "HandlerCalled 255 None \<in> set evs" and n: "length evs = 2"
    by (auto simp: Exit_def Exit_teardown_def new_world_def newApp_def)
  from Exit_handler_returned_panics[OF h e] c
  have "out = ExitPanic (StringValue ''exit handler returned'')"
    and "\<exists>pre. evs = pre @ [HandlerCalled 255 None, HandlerReturned]" by blast+
  with n e show ?thesis by auto
qed

subsection \<open>The argument and environment lists\<close>

text \<open>No step of the search, and no call, touches the argument or environment list.\<close>

lemma step_frame:
  "step act s = Some s' \<Longrightarrow>
   Arguments (handle s') = Arguments (handle s) \<and> Environment (handle s') = Environment (handle s)"
proof (cases act)
  case (Select i)
  assume "step act s = Some s'"
  then have "step (Select i) s = Some s'" unfolding Select .
  then obtain st where "s' = set_worker i st s" by (rule step_SelectD)
  then show ?thesis by simp
next
  case (Transfer i)
  assume "step act s = Some s'"
  then have "step (Transfer i) s = Some s'" unfolding Transfer .
  then obtain v where "(ch_closed s \<and> s' = s\<lparr>panicked := Some ''send on closed channel''\<rparr>) \<or>
     (\<not> ch_closed s \<and> result s = None \<and> s' = (set_worker i Exiting s)\<lparr>result := Some (v, True)\<rparr>)"
    by (rule step_TransferD)
  then show ?thesis by (elim disjE conjE) simp_all
next
  case (Done i)
  assume "step act s = Some s'"
  then have "step (Done i) s = Some s'" unfolding Done .
  then have "(wg s < 1 \<and> s' = s\<lparr>panicked := Some ''sync: negative WaitGroup counter''\<rparr>) \<or>
     (1 \<le> wg s \<and> s' = (set_worker i Finished s)\<lparr>wg := wg s - 1\<rparr>)"
    by (rule step_DoneD)
  then show ?thesis by (elim disjE conjE) simp_all
qed (auto split: if_splits)

lemma run_frame:
  "run acts s = Some s' \<Longrightarrow>
   Arguments (handle s') = Arguments (handle s) \<and> Environment (handle s') = Environment (handle s)"
proof (induction acts arbitrary: s)
  case Nil
  then show ?case by simp
next
  case (Cons act acts)
  then obtain s1 where s1: "step act s = Some s1" and r: "run acts s1 = Some s'"
    by (auto split: option.splits)
  from Cons.IH[OF r] step_frame[OF s1] show ?case by simp
qed

lemma Logger_frame:
  "Logger w = Some (p, w') \<Longrightarrow>
   Arguments (app w') = Arguments (app w) \<and> Environment (app w') = Environment (app w)"
  by (auto simp: Logger_def Logger_locked_def Let_def split: if_splits option.splits)

lemma Errors_frame:
  "Arguments (app (snd (Errors w))) = Arguments (app w) \<and>
   Environment (app (snd (Errors w))) = Environment (app w)"
  by (simp add: Errors_def ensureErrorChannel_def Let_def split: option.splits)

lemma HandleError_frame:
  "Arguments (app (snd (HandleError e w))) = Arguments (app w) \<and>
   Environment (app (snd (HandleError e w))) = Environment (app w)"
  by (auto simp: HandleError_def ensureErrorChannel_def send_def close_chan_def Let_def
      split: option.splits call.splits prod.splits if_splits)

lemma recv_app: "app (snd (recv c w)) = app w"
  by (simp add: recv_def Let_def split: list.splits)

lemma apply_op_frame:
  "Arguments (app (apply_op x w)) = Arguments (app w) \<and>
   Environment (app (apply_op x w)) = Environment (app w)"
proof (cases x)
  case CallLogger
  show ?thesis
  proof (cases "Logger w")
    case None
    with CallLogger show ?thesis by simp
  next
    case (Some a)
    obtain p w' where a: "a = (p, w')" by (cases a)
    with Some have l: "Logger w = Some (p, w')" by simp
    from Logger_frame[OF l] l CallLogger show ?thesis by simp
  qed
next
  case CallErrors
  then show ?thesis using Errors_frame[of w] by simp
next
  case (CallExit code)
  then show ?thesis by (simp add: Exit_frame)
next
  case (CallHandleError err)
  then show ?thesis using HandleError_frame[of err w] by simp
next
  case Receive
  obtain c w' where e: "Errors w = (c, w')" by (cases "Errors w")
  with Errors_frame[of w] have f: "Arguments (app w') = Arguments (app w)"
    "Environment (app w') = Environment (app w)" by simp_all
  show ?thesis
  proof (cases c)
    case None
    with Receive e f show ?thesis by simp
  next
    case (Some c')
    with Receive e f show ?thesis by (simp add: recv_app)
  qed
qed

lemma fold_apply_op_frame:
  "Arguments (app (fold apply_op ops w)) = Arguments (app w) \<and>
   Environment (app (fold apply_op ops w)) = Environment (app w)"
proof (induction ops arbitrary: w)
  case Nil
  show ?case by simp
next
  case (Cons x ops)
  from Cons.IH[of "apply_op x w"] apply_op_frame[of x w] show ?case by simp
qed

text \<open>
  C9. Each public operation, and so any sequence of them, leaves \<^verbatim>\<open>Arguments\<close> and
  \<^verbatim>\<open>Environment\<close> as they were; so does every step of the search of \<^verbatim>\<open>LookupEnv\<close>.
\<close>

theorem public_operations_frame:
  "(\<forall>p w'. Logger w = Some (p, w') \<longrightarrow>
      Arguments (app w') = Arguments (app w) \<and> Environment (app w') = Environment (app w)) \<and>
   Arguments (app (snd (Errors w))) = Arguments (app w) \<and>
   Environment (app (snd (Errors w))) = Environment (app w) \<and>
   Arguments (app (snd (HandleError e w))) = Arguments (app w) \<and>
   Environment (app (snd (HandleError e w))) = Environment (app w) \<and>
   Arguments (app (snd (snd (Exit code w)))) = Arguments (app w) \<and>
   Environment (app (snd (snd (Exit code w)))) = Environment (app w) \<and>
   (\<forall>acts s. run acts (LookupEnv_init (app w) k) = Some s \<longrightarrow>
      Arguments (handle s) = Arguments (app w) \<and> Environment (handle s) = Environment (app w)) \<and>
   (\<forall>ops. Arguments (app (fold apply_op ops w)) = Arguments (app w) \<and>
      Environment (app (fold apply_op ops w)) = Environment (app w))"
proof -
  have "Arguments (handle s) = Arguments (app w) \<and> Environment (handle s) = Environment (app w)"
    if "run acts (LookupEnv_init (app w) k) = Some s" for acts s
    using run_frame[OF that] by (simp add: LookupEnv_init_def)
  then have 1: "\<forall>acts s. run acts (LookupEnv_init (app w) k) = Some s \<longrightarrow>
      Arguments (handle s) = Arguments (app w) \<and> Environment (handle s) = Environment (app w)"
    by blast
  have 2: "\<forall>p w'. Logger w = Some (p, w') \<longrightarrow>
      Arguments (app w') = Arguments (app w) \<and> Environment (app w') = Environment (app w)"
    using Logger_frame[of w] by blast
  have 3: "\<forall>ops. Arguments (app (fold apply_op ops w)) = Arguments (app w) \<and>
      Environment (app (fold apply_op ops w)) = Environment (app w)"
    using fold_apply_op_frame[of _ w] by blast
  from 1 2 3 Errors_frame[of w] HandleError_frame[of e w] Exit_frame(3,4)[of code w]
  show ?thesis by (intro conjI) (erule conjunct1 conjunct2 | assumption)+
qed

theorem public_operations_frame_witness:
  "(\<exists>p w'. Logger (new_world (newApp [''PATH=/bin''] [''run''])) = Some (p, w') \<and>
      Arguments (app w') = [''run''] \<and> Environment (app w') = [''PATH=/bin'']) \<and>
   (\<exists>s. run [Spawn, Cancel, Select 0]
          (LookupEnv_init (app (new_world (newApp [''PATH=/bin''] [''run'']))) ''PATH'') = Some s \<and>
      Arguments (handle s) = [''run''] \<and> Environment (handle s) = [''PATH=/bin''])"
proof -
  let ?w = "new_world (newApp [''PATH=/bin''] [''run''])"
  have a: "Arguments (app ?w) = [''run'']" and e: "Environment (app ?w) = [''PATH=/bin'']"
    by (simp_all add: new_world_def newApp_def)
  have "\<exists>p w'. Logger ?w = Some (p, w')"
    by (simp add: Logger_def new_world_def newApp_def)
  then obtain p w' where l: "Logger ?w = Some (p, w')" by blast
  have "\<exists>s. run [Spawn, Cancel, Select 0] (LookupEnv_init (app ?w) ''PATH'') = Some s"
    by (simp add: lookup_eval new_world_def)
  then obtain s where r: "run [Spawn, Cancel, Select 0] (LookupEnv_init (app ?w) ''PATH'') = Some s"
    by blast
  note f = public_operations_frame[of ?w None 0 "''PATH''"]
  from f have "\<forall>p w'. Logger ?w = Some (p, w') \<longrightarrow>
      Arguments (app w') = Arguments (app ?w) \<and> Environment (app w') = Environment (app ?w)"
    by (rule conjunct1)
  then have "Arguments (app w') = Arguments (app ?w) \<and> Environment (app w') = Environment (app ?w)"
    using l by blast
  then have 1: "Arguments (app w') = [''run''] \<and> Environment (app w') = [''PATH=/bin'']"
    unfolding a e .
  from f have "\<forall>acts s. run acts (LookupEnv_init (app ?w) ''PATH'') = Some s \<longrightarrow>
      Arguments (handle s) = Arguments (app ?w) \<and> Environment (handle s) = Environment (app ?w)"
    by blast
  then have "Arguments (handle s) = Arguments (app ?w) \<and> Environment (handle s) = Environment (app ?w)"
    using r by blast
  then have 2: "Arguments (handle s) = [''run''] \<and> Environment (handle s) = [''PATH=/bin'']"
    unfolding a e .
  from l r 1 2 show ?thesis by blast
qed

subsection \<open>Counting in a list that changes at one place\<close>

lemma sum_list_update_less:
  fixes f :: "'a \<Rightarrow> nat"
  shows "i < length ts \<Longrightarrow> f t < f (ts ! i) \<Longrightarrow>
   sum_list (map f (ts[i := t])) < sum_list (map f ts)"
proof (induction ts arbitrary: i)
  case Nil
  then show ?case by simp
next
  case (Cons a ts)
  then show ?case by (cases i) (simp_all add: add_less_mono)
qed

lemma count_update:
  "i < length ts \<Longrightarrow>
   length (filter P (ts[i := t])) + (if P (ts ! i) then 1 else 0)
     = length (filter P ts) + (if P t then 1 else 0)"
proof (induction ts arbitrary: i)
  case Nil
  then show ?case by simp
next
  case (Cons a ts)
  show ?case
  proof (cases i)
    case 0
    then show ?thesis by simp
  next
    case (Suc j)
    with Cons.prems have "j < length ts" by simp
    from Cons.IH[OF this] Suc show ?thesis by simp
  qed
qed

lemma count_pos: "i < length ts \<Longrightarrow> P (ts ! i) \<Longrightarrow> 0 < length (filter P ts)"
  using nth_mem[of i ts] by (auto simp: filter_empty_conv)

lemma count_zero: "length (filter P ts) = 0 \<longleftrightarrow> (\<forall>t \<in> set ts. \<not> P t)"
  by (auto simp: filter_empty_conv)

lemma count_two:
  "i < length ts \<Longrightarrow> j < length ts \<Longrightarrow> i \<noteq> j \<Longrightarrow> P (ts ! i) \<Longrightarrow> P (ts ! j) \<Longrightarrow>
   2 \<le> length (filter P ts)"
proof (induction ts arbitrary: i j)
  case Nil
  then show ?case by simp
next
  case (Cons a ts)
  show ?case
  proof (cases i)
    case i0: 0
    with Cons.prems obtain j' where j': "j = Suc j'" by (cases j) auto
    with Cons.prems have "j' < length ts" "P (ts ! j')" by simp_all
    then have "Suc 0 \<le> length (filter P ts)" using count_pos[of j' ts P] by linarith
    moreover from i0 Cons.prems have "P a" by simp
    ultimately show ?thesis by (simp del: length_greater_0_conv)
  next
    case (Suc i')
    show ?thesis
    proof (cases j)
      case 0
      from Suc Cons.prems have "i' < length ts" "P (ts ! i')" by simp_all
      then have "Suc 0 \<le> length (filter P ts)" using count_pos[of i' ts P] by linarith
      moreover from 0 Cons.prems have "P a" by simp
      ultimately show ?thesis by (simp del: length_greater_0_conv)
    next
      case j': (Suc j')
      with Suc Cons.prems have "i' < length ts" "j' < length ts" "i' \<noteq> j'"
        "P (ts ! i')" "P (ts ! j')" by simp_all
      then have "2 \<le> length (filter P ts)" by (rule Cons.IH)
      then show ?thesis by simp
    qed
  qed
qed

text \<open>Where one element satisfies \<open>P\<close> and at most one does, no other does.\<close>

lemma count_others:
  assumes le: "length (filter P ts) \<le> 1" and i: "i < length ts" and p: "P (ts ! i)"
    and t: "t \<in> set (ts[i := x])"
  shows "t = x \<or> \<not> P t"
proof -
  from t obtain j where j: "j < length ts" and tj: "ts[i := x] ! j = t"
    by (auto simp: in_set_conv_nth)
  show ?thesis
  proof (cases "j = i")
    case True
    with tj i show ?thesis by simp
  next
    case False
    with tj have tj': "ts ! j = t" by simp
    have "\<not> P t"
    proof
      assume "P t"
      with tj' have "P (ts ! j)" by simp
      from count_two[OF i j _ p this] False le show False by simp
    qed
    then show ?thesis ..
  qed
qed

lemma in_update_other: "x \<in> set ts \<Longrightarrow> i < length ts \<Longrightarrow> ts ! i \<noteq> x \<Longrightarrow> x \<in> set (ts[i := y])"
  by (metis in_set_conv_nth length_list_update nth_list_update_neq)

subsection \<open>Racing callers of \<^verbatim>\<open>Logger\<close>\<close>

lemma set_mutex_simps [simp]:
  "loggerMu (app (set_mutex b w)) = b"
  "logger (app (set_mutex b w)) = logger (app w)"
  "allocated (set_mutex b w) = allocated w"
  by (simp_all add: set_mutex_def)

lemma new_base_simps [simp]:
  "loggerMu (app (new_base w)) = loggerMu (app w)"
  "logger (app (new_base w)) = logger (app w)"
  "allocated (new_base w) = Suc (allocated w)"
  by (simp_all add: new_base_def)

lemma store_logger_simps [simp]:
  "loggerMu (app (store_logger p w)) = loggerMu (app w)"
  "logger (app (store_logger p w)) = Some p"
  "allocated (store_logger p w) = allocated w"
  by (simp_all add: store_logger_def)

lemma InitLoggers_simps [simp]:
  "loggerMu (app (InitLoggers p w)) = loggerMu (app w)"
  "logger (app (InitLoggers p w)) = logger (app w)"
  "allocated (InitLoggers p w) = allocated w"
  by (simp_all add: InitLoggers_def)

lemma set_thread_simps [simp]:
  "shared (set_thread i t s) = shared s"
  "crashed (set_thread i t s) = crashed s"
  "threads (set_thread i t s) = (threads s)[i := t]"
  by (simp_all add: set_thread_def)

text \<open>What each step needs and gives.\<close>

lemma race_LockD:
  assumes "race_step (Lock i) s = Some s'"
  shows "crashed s = None \<and> i < length (threads s) \<and> threads s ! i = Calling \<and>
    \<not> loggerMu (app (shared s)) \<and>
    s' = set_thread i Holding (s\<lparr>shared := set_mutex True (shared s)\<rparr>)"
  using assms by (cases "threads s ! i") (simp_all split: if_splits)

lemma race_TestD:
  assumes "race_step (Test i) s = Some s'"
  shows "crashed s = None \<and> i < length (threads s) \<and> threads s ! i = Holding \<and>
    ((logger (app (shared s)) = None \<and> s' = set_thread i Creating s) \<or>
     (logger (app (shared s)) \<noteq> None \<and> s' = set_thread i Reading s))"
  using assms by (cases "threads s ! i") (simp_all split: if_splits)

lemma race_CreateD:
  assumes "race_step (Create i) s = Some s'"
  shows "crashed s = None \<and> i < length (threads s) \<and> threads s ! i = Creating \<and>
    s' = set_thread i (Storing (allocated (shared s))) (s\<lparr>shared := new_base (shared s)\<rparr>)"
  using assms by (cases "threads s ! i") (simp_all split: if_splits)

lemma race_StoreD:
  assumes "race_step (Store i) s = Some s'"
  shows "\<exists>p. crashed s = None \<and> i < length (threads s) \<and> threads s ! i = Storing p \<and>
    s' = set_thread i (Initing p) (s\<lparr>shared := store_logger p (shared s)\<rparr>)"
  using assms by (cases "threads s ! i") (simp_all split: if_splits)

lemma race_InitD:
  assumes "race_step (Init i) s = Some s'"
  shows "\<exists>p. crashed s = None \<and> i < length (threads s) \<and> threads s ! i = Initing p \<and>
    s' = set_thread i Reading (s\<lparr>shared := InitLoggers p (shared s)\<rparr>)"
  using assms by (cases "threads s ! i") (simp_all split: if_splits)

lemma race_ReadD:
  assumes "race_step (Read i) s = Some s'"
  shows "crashed s = None \<and> i < length (threads s) \<and> threads s ! i = Reading \<and>
    s' = set_thread i (Unlocking (logger (app (shared s)))) s"
  using assms by (cases "threads s ! i") (simp_all split: if_splits)

lemma race_UnlockD:
  assumes "race_step (Unlock i) s = Some s'"
  shows "\<exists>r. crashed s = None \<and> i < length (threads s) \<and> threads s ! i = Unlocking r \<and>
    ((loggerMu (app (shared s)) \<and>
      s' = set_thread i (Returned r) (s\<lparr>shared := set_mutex False (shared s)\<rparr>)) \<or>
     (\<not> loggerMu (app (shared s)) \<and> s' = s\<lparr>crashed := Some ''sync: unlock of unlocked mutex''\<rparr>))"
  using assms by (cases "threads s ! i") (simp_all split: if_splits)

lemma race_left_move:
  assumes "i < length (threads s)" and "trank t < trank (threads s ! i)"
  shows "race_left (set_thread i t (s\<lparr>shared := v\<rparr>)) < race_left s"
    "race_left (set_thread i t s) < race_left s"
  using sum_list_update_less[of i "threads s" trank t, OF assms]
  by (simp_all add: race_left_def)

lemma race_step_decreases: "race_step x s = Some s' \<Longrightarrow> race_left s' < race_left s"
proof (cases x)
  case (Lock i)
  assume "race_step x s = Some s'"
  then have "race_step (Lock i) s = Some s'" unfolding Lock .
  from race_LockD[OF this] show ?thesis by (auto intro!: race_left_move)
next
  case (Test i)
  assume "race_step x s = Some s'"
  then have "race_step (Test i) s = Some s'" unfolding Test .
  from race_TestD[OF this] show ?thesis by (auto intro!: race_left_move)
next
  case (Create i)
  assume "race_step x s = Some s'"
  then have "race_step (Create i) s = Some s'" unfolding Create .
  from race_CreateD[OF this] show ?thesis by (auto intro!: race_left_move)
next
  case (Store i)
  assume "race_step x s = Some s'"
  then have "race_step (Store i) s = Some s'" unfolding Store .
  from race_StoreD[OF this] show ?thesis by (auto intro!: race_left_move)
next
  case (Init i)
  assume "race_step x s = Some s'"
  then have "race_step (Init i) s = Some s'" unfolding Init .
  from race_InitD[OF this] show ?thesis by (auto intro!: race_left_move)
next
  case (Read i)
  assume "race_step x s = Some s'"
  then have "race_step (Read i) s = Some s'" unfolding Read .
  from race_ReadD[OF this] show ?thesis by (auto intro!: race_left_move)
next
  case (Unlock i)
  assume "race_step x s = Some s'"
  then have "race_step (Unlock i) s = Some s'" unfolding Unlock .
  from race_UnlockD[OF this] obtain r where i: "i < length (threads s)"
    and t: "threads s ! i = Unlocking r"
    and c: "(loggerMu (app (shared s)) \<and>
      s' = set_thread i (Returned r) (s\<lparr>shared := set_mutex False (shared s)\<rparr>)) \<or>
     (\<not> loggerMu (app (shared s)) \<and> s' = s\<lparr>crashed := Some ''sync: unlock of unlocked mutex''\<rparr>)"
    and n: "crashed s = None"
    by blast
  from c show ?thesis
  proof (elim disjE conjE)
    assume "s' = set_thread i (Returned r) (s\<lparr>shared := set_mutex False (shared s)\<rparr>)"
    with i t show ?thesis by (auto intro!: race_left_move)
  next
    assume "s' = s\<lparr>crashed := Some ''sync: unlock of unlocked mutex''\<rparr>"
    with n show ?thesis by (simp add: race_left_def)
  qed
qed

lemma race_decreases: "race xs s = Some s' \<Longrightarrow> length xs + race_left s' \<le> race_left s"
proof (induction xs arbitrary: s)
  case Nil
  then show ?case by simp
next
  case (Cons x xs)
  then obtain s1 where s1: "race_step x s = Some s1" and r: "race xs s1 = Some s'"
    by (auto split: option.splits)
  from Cons.IH[OF r] race_step_decreases[OF s1] show ?case by simp
qed

lemma race_left_init: "race_left (Logger_calls n w) = 7 * n + 1"
  by (induction n) (simp_all add: race_left_def Logger_calls_def)

lemma race_append:
  "race (xs @ ys) s = (case race xs s of None \<Rightarrow> None | Some s' \<Rightarrow> race ys s')"
  by (induction xs arbitrary: s) (auto split: option.splits)

lemma race_invD:
  assumes "race_inv w n s"
  shows "crashed s = None" "length (threads s) = n"
    "holders (threads s) = (if loggerMu (app (shared s)) then 1 else 0)"
    "made_ok w (shared s) (threads s)"
    "\<And>t. t \<in> set (threads s) \<Longrightarrow> thread_ok w (shared s) t"
  using assms unfolding race_inv_def by blast+

lemma race_inv_init: "\<not> loggerMu (app w) \<Longrightarrow> race_inv w n (Logger_calls n w)"
  by (simp add: race_inv_def Logger_calls_def holders_def made_ok_def)

lemma holder_has_mutex:
  assumes inv: "race_inv w n s" and i: "i < length (threads s)" and h: "holding (threads s ! i)"
  shows "loggerMu (app (shared s))" "holders (threads s) \<le> 1"
proof -
  from count_pos[of i "threads s" holding, OF i h] have "0 < holders (threads s)"
    by (simp add: holders_def)
  with race_invD(3)[OF inv] show "loggerMu (app (shared s))" by (simp split: if_splits)
  from race_invD(3)[OF inv] show "holders (threads s) \<le> 1" by (simp split: if_splits)
qed

text \<open>Mutual exclusion: while a caller is between \<^verbatim>\<open>Lock\<close> and \<^verbatim>\<open>Unlock\<close>, no other is.\<close>

lemma holder_alone:
  assumes inv: "race_inv w n s" and i: "i < length (threads s)" and h: "holding (threads s ! i)"
    and t: "t \<in> set ((threads s)[i := x])"
  shows "t = x \<or> \<not> holding t"
  using holder_has_mutex(2)[OF inv i h] i h t unfolding holders_def by (rule count_others)

lemma holder_unique:
  assumes inv: "race_inv w n s" and i: "i < length (threads s)" and hi: "holding (threads s ! i)"
    and j: "j < length (threads s)" and hj: "holding (threads s ! j)"
  shows "i = j"
proof (rule ccontr)
  assume "i \<noteq> j"
  from count_two[OF i j this, of holding] hi hj holder_has_mutex(2)[OF inv i hi]
  show False by (simp add: holders_def)
qed

lemma race_inv_move:
  assumes inv: "race_inv w n s" and i: "i < length (threads s)"
    and mover: "holding (threads s ! i) \<or> \<not> loggerMu (app (shared s))"
    and mu': "loggerMu (app v') = holding t'"
    and made': "made_ok w v' ((threads s)[i := t'])"
    and ok': "thread_ok w v' t'"
    and keep: "\<And>r. r \<noteq> None \<Longrightarrow> logger (app (shared s)) = r \<Longrightarrow> logger (app v') = r"
  shows "race_inv w n (set_thread i t' (s\<lparr>shared := v'\<rparr>))"
proof -
  note I = race_invD[OF inv]
  let ?ts = "threads s"
  have others: "t = t' \<or> (\<not> holding t \<and> t \<in> set ?ts)" if t: "t \<in> set (?ts[i := t'])" for t
  proof (cases "holding (?ts ! i)")
    case True
    from holder_alone[OF inv i True t] in_set_updateD[OF t] show ?thesis by blast
  next
    case False
    with mover have "\<not> loggerMu (app (shared s))" by simp
    with I(3) have "length (filter holding ?ts) = 0" by (simp add: holders_def)
    then have "\<forall>t \<in> set ?ts. \<not> holding t" by (simp only: count_zero)
    with in_set_updateD[OF t] show ?thesis by blast
  qed
  have mu: "loggerMu (app (shared s)) = holding (?ts ! i)"
  proof (cases "holding (?ts ! i)")
    case True
    with holder_has_mutex(1)[OF inv i] show ?thesis by simp
  next
    case False
    with mover show ?thesis by simp
  qed
  from count_update[OF i, of holding t'] I(3) mu
  have h': "holders (?ts[i := t']) = (if holding t' then 1 else 0)"
    by (simp add: holders_def split: if_splits)
  have ok: "thread_ok w v' t" if t: "t \<in> set (?ts[i := t'])" for t
  proof -
    from others[OF t] show ?thesis
    proof
      assume "t = t'"
      with ok' show ?thesis by simp
    next
      assume a: "\<not> holding t \<and> t \<in> set ?ts"
      then have old: "thread_ok w (shared s) t" using I(5) by blast
      from a show ?thesis
      proof (cases t)
        case (Returned r)
        with old keep[of r] show ?thesis by simp
      qed simp_all
    qed
  qed
  show ?thesis
    unfolding race_inv_def
  proof (intro conjI ballI)
    show "crashed (set_thread i t' (s\<lparr>shared := v'\<rparr>)) = None" using I(1) by simp
    show "length (threads (set_thread i t' (s\<lparr>shared := v'\<rparr>))) = n" using I(2) by simp
    show "holders (threads (set_thread i t' (s\<lparr>shared := v'\<rparr>))) =
        (if loggerMu (app (shared (set_thread i t' (s\<lparr>shared := v'\<rparr>)))) then 1 else 0)"
      using h' mu' by simp
    show "made_ok w (shared (set_thread i t' (s\<lparr>shared := v'\<rparr>)))
        (threads (set_thread i t' (s\<lparr>shared := v'\<rparr>)))"
      using made' by simp
    fix t assume "t \<in> set (threads (set_thread i t' (s\<lparr>shared := v'\<rparr>)))"
    then have "t \<in> set (?ts[i := t'])" by simp
    then show "thread_ok w (shared (set_thread i t' (s\<lparr>shared := v'\<rparr>))) t"
      using ok by simp
  qed
qed

text \<open>A world with the field set carries the same facts to any world with that field.\<close>

lemma made_ok_set:
  assumes "made_ok w v ts" and "logger (app v) \<noteq> None"
    and "logger (app v') = logger (app v)" and "allocated v' = allocated v"
  shows "made_ok w v' ts'"
  using assms unfolding made_ok_def by auto

lemma made_ok_same:
  assumes "made_ok w v ts" and "Storing (allocated w) \<in> set ts \<Longrightarrow> Storing (allocated w) \<in> set ts'"
    and "logger (app v') = logger (app v)" and "allocated v' = allocated v"
  shows "made_ok w v' ts'"
  using assms unfolding made_ok_def by auto

lemma race_inv_Lock:
  assumes st: "race_step (Lock i) s = Some s'" and inv: "race_inv w n s"
  shows "race_inv w n s'"
proof -
  note I = race_invD[OF inv]
  from race_LockD[OF st] have i: "i < length (threads s)" and t: "threads s ! i = Calling"
    and mu: "\<not> loggerMu (app (shared s))"
    and s': "s' = set_thread i Holding (s\<lparr>shared := set_mutex True (shared s)\<rparr>)"
    by blast+
  show ?thesis
    unfolding s' using inv i
  proof (rule race_inv_move)
    show "holding (threads s ! i) \<or> \<not> loggerMu (app (shared s))" using mu by simp
    show "loggerMu (app (set_mutex True (shared s))) = holding Holding" by simp
    show "made_ok w (set_mutex True (shared s)) ((threads s)[i := Holding])"
      using I(4)
    proof (rule made_ok_same)
      assume "Storing (allocated w) \<in> set (threads s)"
      then show "Storing (allocated w) \<in> set ((threads s)[i := Holding])"
        using i t by (intro in_update_other) simp_all
    qed simp_all
    show "thread_ok w (set_mutex True (shared s)) Holding" by simp
    show "\<And>r. r \<noteq> None \<Longrightarrow> logger (app (shared s)) = r \<Longrightarrow>
        logger (app (set_mutex True (shared s))) = r" by simp
  qed
qed

lemma race_inv_Test:
  assumes st: "race_step (Test i) s = Some s'" and inv: "race_inv w n s"
  shows "race_inv w n s'"
proof -
  note I = race_invD[OF inv]
  from race_TestD[OF st] have i: "i < length (threads s)" and t: "threads s ! i = Holding"
    and c: "(logger (app (shared s)) = None \<and> s' = set_thread i Creating s) \<or>
     (logger (app (shared s)) \<noteq> None \<and> s' = set_thread i Reading s)"
    by blast+
  from t have h: "holding (threads s ! i)" by simp
  have nostore: "Storing p \<notin> set (threads s)" for p
  proof
    assume "Storing p \<in> set (threads s)"
    then obtain j where j: "j < length (threads s)" and tj: "threads s ! j = Storing p"
      by (auto simp: in_set_conv_nth)
    then have "holding (threads s ! j)" by simp
    from holder_unique[OF inv i h j this] t tj show False by simp
  qed
  have sh: "s\<lparr>shared := shared s\<rparr> = s" by simp
  from c show ?thesis
  proof (elim disjE conjE)
    assume n: "logger (app (shared s)) = None" and s': "s' = set_thread i Creating s"
    from I(4) n nostore have a: "logger (app w) = None \<and> allocated (shared s) = allocated w"
      unfolding made_ok_def by auto
    have "race_inv w n (set_thread i Creating (s\<lparr>shared := shared s\<rparr>))"
      using inv i
    proof (rule race_inv_move)
      show "holding (threads s ! i) \<or> \<not> loggerMu (app (shared s))" using h by simp
      show "loggerMu (app (shared s)) = holding Creating"
        using holder_has_mutex(1)[OF inv i h] by simp
      show "made_ok w (shared s) ((threads s)[i := Creating])"
        using a n unfolding made_ok_def by simp
      show "thread_ok w (shared s) Creating" using a n by simp
    qed simp
    then show ?thesis by (simp add: s' sh)
  next
    assume n: "logger (app (shared s)) \<noteq> None" and s': "s' = set_thread i Reading s"
    have "race_inv w n (set_thread i Reading (s\<lparr>shared := shared s\<rparr>))"
      using inv i
    proof (rule race_inv_move)
      show "holding (threads s ! i) \<or> \<not> loggerMu (app (shared s))" using h by simp
      show "loggerMu (app (shared s)) = holding Reading"
        using holder_has_mutex(1)[OF inv i h] by simp
      show "made_ok w (shared s) ((threads s)[i := Reading])"
        using I(4) n by (rule made_ok_set) simp_all
      show "thread_ok w (shared s) Reading" using n by simp
    qed simp
    then show ?thesis by (simp add: s' sh)
  qed
qed

lemma race_inv_Create:
  assumes st: "race_step (Create i) s = Some s'" and inv: "race_inv w n s"
  shows "race_inv w n s'"
proof -
  note I = race_invD[OF inv]
  from race_CreateD[OF st] have i: "i < length (threads s)" and t: "threads s ! i = Creating"
    and s': "s' = set_thread i (Storing (allocated (shared s))) (s\<lparr>shared := new_base (shared s)\<rparr>)"
    by blast+
  from t have h: "holding (threads s ! i)" by simp
  from i t have "Creating \<in> set (threads s)" by (metis nth_mem)
  from I(5)[OF this] have n: "logger (app (shared s)) = None"
    and a: "allocated (shared s) = allocated w" by simp_all
  from I(4) n a have lw: "logger (app w) = None" unfolding made_ok_def by auto
  show ?thesis
    unfolding s' using inv i
  proof (rule race_inv_move)
    show "holding (threads s ! i) \<or> \<not> loggerMu (app (shared s))" using h by simp
    show "loggerMu (app (new_base (shared s))) = holding (Storing (allocated (shared s)))"
      using holder_has_mutex(1)[OF inv i h] by simp
    show "made_ok w (new_base (shared s)) ((threads s)[i := Storing (allocated (shared s))])"
      using n a lw i unfolding made_ok_def by (simp add: set_update_memI)
    show "thread_ok w (new_base (shared s)) (Storing (allocated (shared s)))"
      using n a by simp
    show "\<And>r. r \<noteq> None \<Longrightarrow> logger (app (shared s)) = r \<Longrightarrow>
        logger (app (new_base (shared s))) = r" by simp
  qed
qed

lemma race_inv_Store:
  assumes st: "race_step (Store i) s = Some s'" and inv: "race_inv w n s"
  shows "race_inv w n s'"
proof -
  note I = race_invD[OF inv]
  from race_StoreD[OF st] obtain p where i: "i < length (threads s)"
    and t: "threads s ! i = Storing p"
    and s': "s' = set_thread i (Initing p) (s\<lparr>shared := store_logger p (shared s)\<rparr>)"
    by blast
  from t have h: "holding (threads s ! i)" by simp
  from i t have "Storing p \<in> set (threads s)" by (metis nth_mem)
  from I(5)[OF this] have p: "p = allocated w" and n: "logger (app (shared s)) = None"
    and a: "allocated (shared s) = Suc (allocated w)" by simp_all
  from I(4) n a have lw: "logger (app w) = None" unfolding made_ok_def by auto
  show ?thesis
    unfolding s' using inv i
  proof (rule race_inv_move)
    show "holding (threads s ! i) \<or> \<not> loggerMu (app (shared s))" using h by simp
    show "loggerMu (app (store_logger p (shared s))) = holding (Initing p)"
      using holder_has_mutex(1)[OF inv i h] by simp
    show "made_ok w (store_logger p (shared s)) ((threads s)[i := Initing p])"
      using p a lw unfolding made_ok_def by simp
    show "thread_ok w (store_logger p (shared s)) (Initing p)" by simp
    show "\<And>r. r \<noteq> None \<Longrightarrow> logger (app (shared s)) = r \<Longrightarrow>
        logger (app (store_logger p (shared s))) = r" using n by simp
  qed
qed

lemma race_inv_Init:
  assumes st: "race_step (Init i) s = Some s'" and inv: "race_inv w n s"
  shows "race_inv w n s'"
proof -
  note I = race_invD[OF inv]
  from race_InitD[OF st] obtain p where i: "i < length (threads s)"
    and t: "threads s ! i = Initing p"
    and s': "s' = set_thread i Reading (s\<lparr>shared := InitLoggers p (shared s)\<rparr>)"
    by blast
  from t have h: "holding (threads s ! i)" by simp
  from i t have "Initing p \<in> set (threads s)" by (metis nth_mem)
  from I(5)[OF this] have l: "logger (app (shared s)) = Some p" by simp
  show ?thesis
    unfolding s' using inv i
  proof (rule race_inv_move)
    show "holding (threads s ! i) \<or> \<not> loggerMu (app (shared s))" using h by simp
    show "loggerMu (app (InitLoggers p (shared s))) = holding Reading"
      using holder_has_mutex(1)[OF inv i h] by simp
    show "made_ok w (InitLoggers p (shared s)) ((threads s)[i := Reading])"
      using I(4) by (rule made_ok_set) (simp_all add: l)
    show "thread_ok w (InitLoggers p (shared s)) Reading" using l by simp
    show "\<And>r. r \<noteq> None \<Longrightarrow> logger (app (shared s)) = r \<Longrightarrow>
        logger (app (InitLoggers p (shared s))) = r" by simp
  qed
qed

lemma race_inv_Read:
  assumes st: "race_step (Read i) s = Some s'" and inv: "race_inv w n s"
  shows "race_inv w n s'"
proof -
  note I = race_invD[OF inv]
  from race_ReadD[OF st] have i: "i < length (threads s)" and t: "threads s ! i = Reading"
    and s': "s' = set_thread i (Unlocking (logger (app (shared s)))) s"
    by blast+
  from t have h: "holding (threads s ! i)" by simp
  from i t have "Reading \<in> set (threads s)" by (metis nth_mem)
  from I(5)[OF this] have l: "logger (app (shared s)) \<noteq> None" by simp
  have sh: "s\<lparr>shared := shared s\<rparr> = s" by simp
  have "race_inv w n (set_thread i (Unlocking (logger (app (shared s)))) (s\<lparr>shared := shared s\<rparr>))"
    using inv i
  proof (rule race_inv_move)
    show "holding (threads s ! i) \<or> \<not> loggerMu (app (shared s))" using h by simp
    show "loggerMu (app (shared s)) = holding (Unlocking (logger (app (shared s))))"
      using holder_has_mutex(1)[OF inv i h] by simp
    show "made_ok w (shared s) ((threads s)[i := Unlocking (logger (app (shared s)))])"
      using I(4) l by (rule made_ok_set) simp_all
    show "thread_ok w (shared s) (Unlocking (logger (app (shared s))))" using l by simp
  qed simp
  then show ?thesis by (simp add: s' sh)
qed

lemma race_inv_Unlock:
  assumes st: "race_step (Unlock i) s = Some s'" and inv: "race_inv w n s"
  shows "race_inv w n s'"
proof -
  note I = race_invD[OF inv]
  from race_UnlockD[OF st] obtain r where i: "i < length (threads s)"
    and t: "threads s ! i = Unlocking r"
    and c: "(loggerMu (app (shared s)) \<and>
      s' = set_thread i (Returned r) (s\<lparr>shared := set_mutex False (shared s)\<rparr>)) \<or>
     (\<not> loggerMu (app (shared s)) \<and> s' = s\<lparr>crashed := Some ''sync: unlock of unlocked mutex''\<rparr>)"
    by blast
  from t have h: "holding (threads s ! i)" by simp
  from holder_has_mutex(1)[OF inv i h] c
  have s': "s' = set_thread i (Returned r) (s\<lparr>shared := set_mutex False (shared s)\<rparr>)" by blast
  from i t have "Unlocking r \<in> set (threads s)" by (metis nth_mem)
  from I(5)[OF this] have r: "r \<noteq> None" and l: "logger (app (shared s)) = r" by simp_all
  show ?thesis
    unfolding s' using inv i
  proof (rule race_inv_move)
    show "holding (threads s ! i) \<or> \<not> loggerMu (app (shared s))" using h by simp
    show "loggerMu (app (set_mutex False (shared s))) = holding (Returned r)" by simp
    show "made_ok w (set_mutex False (shared s)) ((threads s)[i := Returned r])"
      using I(4) by (rule made_ok_set) (simp_all add: l r)
    show "thread_ok w (set_mutex False (shared s)) (Returned r)" using r l by simp
    show "\<And>r. r \<noteq> None \<Longrightarrow> logger (app (shared s)) = r \<Longrightarrow>
        logger (app (set_mutex False (shared s))) = r" by simp
  qed
qed

lemma race_inv_step: "race_step x s = Some s' \<Longrightarrow> race_inv w n s \<Longrightarrow> race_inv w n s'"
  by (cases x) (simp_all only: race_inv_Lock race_inv_Test race_inv_Create race_inv_Store
      race_inv_Init race_inv_Read race_inv_Unlock)

lemma race_inv_run: "race xs s = Some s' \<Longrightarrow> race_inv w n s \<Longrightarrow> race_inv w n s'"
proof (induction xs arbitrary: s)
  case Nil
  then show ?case by simp
next
  case (Cons x xs)
  then obtain s1 where s1: "race_step x s = Some s1" and r: "race xs s1 = Some s'"
    by (auto split: option.splits)
  from Cons.IH[OF r race_inv_step[OF s1 Cons.prems(2)]] show ?case .
qed

lemma race_progress:
  assumes inv: "race_inv w n s" and u: "\<not> list_all returned (threads s)"
  shows "\<exists>x s'. race_step x s = Some s'"
proof -
  note I = race_invD[OF inv]
  show ?thesis
  proof (cases "loggerMu (app (shared s))")
    case True
    with I(3) have "length (filter holding (threads s)) \<noteq> 0" by (simp add: holders_def)
    then obtain t where "t \<in> set (threads s)" and ht: "holding t"
      by (auto simp only: count_zero)
    then obtain j where j: "j < length (threads s)" and tj: "threads s ! j = t"
      by (auto simp: in_set_conv_nth)
    show ?thesis
    proof (cases t)
      case Calling
      with ht show ?thesis by simp
    next
      case Holding
      with j tj I(1) have "race_step (Test j) s \<noteq> None" by simp
      then show ?thesis by blast
    next
      case Creating
      with j tj I(1) have "race_step (Create j) s \<noteq> None" by simp
      then show ?thesis by blast
    next
      case (Storing p)
      with j tj I(1) have "race_step (Store j) s \<noteq> None" by simp
      then show ?thesis by blast
    next
      case (Initing p)
      with j tj I(1) have "race_step (Init j) s \<noteq> None" by simp
      then show ?thesis by blast
    next
      case Reading
      with j tj I(1) have "race_step (Read j) s \<noteq> None" by simp
      then show ?thesis by blast
    next
      case (Unlocking r)
      with j tj I(1) True have "race_step (Unlock j) s \<noteq> None" by simp
      then show ?thesis by blast
    next
      case (Returned r)
      with ht show ?thesis by simp
    qed
  next
    case False
    with I(3) have "length (filter holding (threads s)) = 0" by (simp add: holders_def)
    then have nh: "\<forall>t \<in> set (threads s). \<not> holding t" by (simp only: count_zero)
    from u obtain t where t: "t \<in> set (threads s)" and nr: "\<not> returned t"
      by (auto simp: list_all_iff)
    with nh have "t = Calling" by (cases t) auto
    with t obtain j where "j < length (threads s)" and "threads s ! j = Calling"
      by (auto simp: in_set_conv_nth)
    with I(1) False have "race_step (Lock j) s \<noteq> None" by simp
    then show ?thesis by blast
  qed
qed

lemma race_completion:
  "race_inv w n s \<Longrightarrow> \<exists>xs s'. race xs s = Some s' \<and> list_all returned (threads s')"
proof (induction "race_left s" arbitrary: s rule: less_induct)
  case less
  show ?case
  proof (cases "list_all returned (threads s)")
    case True
    then have "race [] s = Some s \<and> list_all returned (threads s)" by simp
    then show ?thesis by blast
  next
    case False
    from race_progress[OF less.prems False] obtain x s1
      where s1: "race_step x s = Some s1" by blast
    from less.hyps[OF race_step_decreases[OF s1] race_inv_step[OF s1 less.prems]]
    obtain xs s' where "race xs s1 = Some s'" "list_all returned (threads s')" by blast
    with s1 have "race (x # xs) s = Some s' \<and> list_all returned (threads s')" by simp
    then show ?thesis by blast
  qed
qed

lemma made_ok_field:
  assumes "made_ok w v ts"
  shows "logger (app v) = logger (app w) \<or> logger (app v) = Some (epoch_logger w)"
    "allocated v \<le> Suc (allocated w)"
    "logger (app w) \<noteq> None \<Longrightarrow> allocated v = allocated w"
    "logger (app w) = None \<Longrightarrow> logger (app v) \<noteq> None \<Longrightarrow> allocated v = Suc (allocated w)"
    "logger (app v) = Some q \<Longrightarrow> q = epoch_logger w"
  using assms unfolding made_ok_def epoch_logger_def
  by (cases "logger (app w)"; auto)+

lemma race_results:
  assumes inv: "race_inv w n s" and t: "t \<in> set (threads s)" and q: "result_of t = Some r"
  shows "r = Some (epoch_logger w)" "logger (app (shared s)) = r"
proof -
  note I = race_invD[OF inv]
  from I(5)[OF t] q have r: "r \<noteq> None" and l: "logger (app (shared s)) = r"
    by (cases t; simp)+
  from l show "logger (app (shared s)) = r" .
  from r obtain p where p: "r = Some p" by blast
  with made_ok_field(5)[OF I(4), of p] l show "r = Some (epoch_logger w)" by simp
qed

text \<open>
  C4. Any number of callers of \<^verbatim>\<open>Logger()\<close> race on a handle whose logger mutex is free,
  with no \<^verbatim>\<open>Exit\<close> among them, every statement of the function being a step of its
  own. Whatever the schedule: no caller crashes; at most one caller is between
  \<^verbatim>\<open>Lock\<close> and \<^verbatim>\<open>Unlock\<close>; the execution is bounded and can be completed so that every
  caller has returned; every result read or returned is one and the same address, the
  logger of the epoch (the one the handle had, or else the one object made in this
  execution); the field \<^verbatim>\<open>a.logger\<close> never holds another address; at most one logger is
  made, none when the handle had one, and exactly one once the field is set or a caller
  has its result on a handle that had none.
\<close>

theorem Logger_single_instance:
  assumes free: "\<not> loggerMu (app w)"
    and r: "race xs (Logger_calls n w) = Some s"
  shows "crashed s = None \<and> length xs \<le> 7 * n + 1 \<and>
    (\<forall>i < n. \<forall>j < n. holding (threads s ! i) \<and> holding (threads s ! j) \<longrightarrow> i = j) \<and>
    (\<exists>ys s'. race (xs @ ys) (Logger_calls n w) = Some s' \<and> list_all returned (threads s') \<and>
       (\<forall>i < n. threads s' ! i = Returned (Some (epoch_logger w)))) \<and>
    (\<forall>i < n. \<forall>q. result_of (threads s ! i) = Some q \<longrightarrow> q = Some (epoch_logger w)) \<and>
    (logger (app (shared s)) = logger (app w) \<or> logger (app (shared s)) = Some (epoch_logger w)) \<and>
    allocated (shared s) \<le> Suc (allocated w) \<and>
    (logger (app w) \<noteq> None \<longrightarrow> allocated (shared s) = allocated w) \<and>
    (logger (app w) = None \<and>
       (logger (app (shared s)) \<noteq> None \<or> (\<exists>i < n. result_of (threads s ! i) \<noteq> None)) \<longrightarrow>
       allocated (shared s) = Suc (allocated w))"
proof -
  have inv: "race_inv w n s" by (rule race_inv_run[OF r race_inv_init[OF free]])
  note I = race_invD[OF inv]
  note M = made_ok_field[OF I(4)]
  have b: "length xs \<le> 7 * n + 1"
    using race_decreases[OF r] by (simp add: race_left_init)
  have excl: "\<forall>i < n. \<forall>j < n. holding (threads s ! i) \<and> holding (threads s ! j) \<longrightarrow> i = j"
    using holder_unique[OF inv] I(2) by blast
  from race_completion[OF inv] obtain ys s' where r': "race ys s = Some s'"
    and allr: "list_all returned (threads s')" by blast
  have inv': "race_inv w n s'" by (rule race_inv_run[OF r' inv])
  have len': "length (threads s') = n" by (rule race_invD(2)[OF inv'])
  have fin: "threads s' ! i = Returned (Some (epoch_logger w))" if "i < n" for i
  proof -
    from that len' have m: "threads s' ! i \<in> set (threads s')" by simp
    with allr have "returned (threads s' ! i)" by (simp add: list_all_iff)
    then obtain q where q: "threads s' ! i = Returned q" by (cases "threads s' ! i") auto
    then have "result_of (threads s' ! i) = Some q" by simp
    from race_results(1)[OF inv' m this] q show ?thesis by simp
  qed
  have "race (xs @ ys) (Logger_calls n w) = Some s'" using r r' by (simp add: race_append)
  with allr fin have ex: "\<exists>ys s'. race (xs @ ys) (Logger_calls n w) = Some s' \<and>
      list_all returned (threads s') \<and>
      (\<forall>i < n. threads s' ! i = Returned (Some (epoch_logger w)))"
    by blast
  have same: "\<forall>i < n. \<forall>q. result_of (threads s ! i) = Some q \<longrightarrow> q = Some (epoch_logger w)"
  proof (intro allI impI)
    fix i q assume "i < n" and q: "result_of (threads s ! i) = Some q"
    with I(2) have "threads s ! i \<in> set (threads s)" by simp
    from race_results(1)[OF inv this q] show "q = Some (epoch_logger w)" .
  qed
  have keep: "logger (app w) \<noteq> None \<longrightarrow> allocated (shared s) = allocated w" using M(3) by blast
  have once: "logger (app w) = None \<and>
       (logger (app (shared s)) \<noteq> None \<or> (\<exists>i < n. result_of (threads s ! i) \<noteq> None)) \<longrightarrow>
       allocated (shared s) = Suc (allocated w)"
  proof
    assume a: "logger (app w) = None \<and>
       (logger (app (shared s)) \<noteq> None \<or> (\<exists>i < n. result_of (threads s ! i) \<noteq> None))"
    have "logger (app (shared s)) \<noteq> None"
    proof (cases "logger (app (shared s)) \<noteq> None")
      case True
      then show ?thesis .
    next
      case False
      with a obtain i q where "i < n" and q: "result_of (threads s ! i) = Some q" by auto
      with I(2) have "threads s ! i \<in> set (threads s)" by simp
      from race_results[OF inv this q] show ?thesis by simp
    qed
    with M(4) a show "allocated (shared s) = Suc (allocated w)" by simp
  qed
  from I(1) b excl ex same M(1) M(2) keep once show ?thesis by blast
qed

lemmas race_eval = Logger_calls_def set_thread_def set_mutex_def new_base_def store_logger_def
  InitLoggers_def new_world_def newApp_def epoch_logger_def

theorem Logger_single_instance_witness:
  "race [Lock 1, Test 1, Create 1, Lock 0, Store 1, Init 1, Read 1, Unlock 1,
         Lock 0, Test 0, Read 0, Unlock 0, Lock 2, Test 2, Read 2]
     (Logger_calls 3 (new_world (newApp [] []))) = None \<and>
   (\<exists>s. race [Lock 1, Test 1, Create 1, Store 1, Init 1, Read 1, Unlock 1,
              Lock 0, Test 0, Read 0, Unlock 0, Lock 2, Test 2, Read 2]
          (Logger_calls 3 (new_world (newApp [] []))) = Some s \<and>
        threads s = [Returned (Some 0), Returned (Some 0), Unlocking (Some 0)] \<and>
        allocated (shared s) = 1 \<and> crashed s = None)"
proof -
  let ?w = "new_world (newApp [] [])"
  let ?xs = "[Lock 1, Test 1, Create 1, Store 1, Init 1, Read 1, Unlock 1,
              Lock 0, Test 0, Read 0, Unlock 0, Lock 2, Test 2, Read 2]"
  have blocked: "race [Lock 1, Test 1, Create 1, Lock 0, Store 1, Init 1, Read 1, Unlock 1,
              Lock 0, Test 0, Read 0, Unlock 0, Lock 2, Test 2, Read 2]
          (Logger_calls 3 ?w) = None"
    by (simp add: race_eval numeral_3_eq_3)
  have "\<exists>s. race ?xs (Logger_calls 3 ?w) = Some s \<and>
      threads s = [Returned (Some 0), Returned (Some 0), Unlocking (Some 0)]"
    by (simp add: race_eval numeral_3_eq_3)
  then obtain s where r: "race ?xs (Logger_calls 3 ?w) = Some s"
    and t: "threads s = [Returned (Some 0), Returned (Some 0), Unlocking (Some 0)]" by blast
  have free: "\<not> loggerMu (app ?w)" and n: "logger (app ?w) = None" and a: "allocated ?w = 0"
    by (simp_all add: new_world_def newApp_def)
  from t have e: "\<exists>i < 3. result_of (threads s ! i) \<noteq> None" by (intro exI[of _ 0]) simp
  from Logger_single_instance[OF free r] n e a
  have "crashed s = None \<and> allocated (shared s) = 1" by simp
  with r t blocked show ?thesis by blast
qed

text \<open>
  One caller alone: the steps of the race are the call \<^verbatim>\<open>Logger\<close> of the handle, along
  the branch that the test takes.
\<close>

lemma Logger_alone:
  assumes "Logger w = Some (p, w')"
  shows "race (if logger (app w) = None
               then [Lock 0, Test 0, Create 0, Store 0, Init 0, Read 0, Unlock 0]
               else [Lock 0, Test 0, Read 0, Unlock 0]) (Logger_calls 1 w)
    = Some \<lparr>shared = w', threads = [Returned (Some p)], crashed = None\<rparr>"
proof (cases "logger (app w)")
  case None
  with assms show ?thesis
    by (auto simp: Logger_def Logger_calls_def Logger_locked_def set_thread_def set_mutex_def
        new_base_def store_logger_def InitLoggers_def Let_def split: if_splits)
next
  case (Some q)
  with assms show ?thesis
    by (auto simp: Logger_def Logger_calls_def Logger_locked_def set_thread_def set_mutex_def
        Let_def split: if_splits)
qed

text \<open>While one caller holds the mutex, the \<^verbatim>\<open>Lock\<close> of another does not return.\<close>

lemma Lock_waits:
  assumes inv: "race_inv w n s" and i: "i < length (threads s)" and h: "holding (threads s ! i)"
  shows "race_step (Lock j) s = None"
  using holder_has_mutex(1)[OF inv i h]
  by (cases "threads s ! j") simp_all

subsection \<open>Racing callers of \<^verbatim>\<open>Errors\<close>\<close>

lemma make_chan_simps [simp]:
  "errch (app (make_chan w)) = Some (allocated w)"
  "allocated (make_chan w) = Suc (allocated w)"
  "chans (make_chan w) (allocated w) = \<lparr>buffer = [], capacity = 1, isClosed = False\<rparr>"
  by (simp_all add: make_chan_def)

lemma ensureErrorChannel_make:
  "errch (app w) = None \<Longrightarrow> ensureErrorChannel w = make_chan w"
  by (simp add: ensureErrorChannel_def make_chan_def Let_def)












lemma erace_invD:
  assumes "erace_inv w n s"
  shows "ecrashed s = None" "length (ethreads s) = n"
    "eholders (ethreads s) = (if errchMu s then 1 else 0)"
    "errch_unused (eshared s)" "epoch_channel (eshared s) = epoch_channel w"
    "\<And>t. t \<in> set (ethreads s) \<Longrightarrow> ethread_ok (eshared s) t"
  using assms unfolding erace_inv_def by blast+


lemma eholder_has_mutex:
  assumes inv: "erace_inv w n s" and i: "i < length (ethreads s)"
    and h: "eholding (ethreads s ! i)"
  shows "errchMu s" "eholders (ethreads s) \<le> 1"
proof -
  from count_pos[of i "ethreads s" eholding, OF i h] have "0 < eholders (ethreads s)"
    by (simp add: eholders_def)
  with erace_invD(3)[OF inv] show "errchMu s" by (simp split: if_splits)
  from erace_invD(3)[OF inv] show "eholders (ethreads s) \<le> 1" by (simp split: if_splits)
qed

lemma eholder_unique:
  assumes inv: "erace_inv w n s" and i: "i < length (ethreads s)"
    and hi: "eholding (ethreads s ! i)"
    and j: "j < length (ethreads s)" and hj: "eholding (ethreads s ! j)"
  shows "i = j"
proof (rule ccontr)
  assume "i \<noteq> j"
  from count_two[OF i j this, of eholding] hi hj eholder_has_mutex(2)[OF inv i hi]
  show False by (simp add: eholders_def)
qed












text \<open>
  One caller alone: the steps of the race are the call \<^verbatim>\<open>Errors\<close> of the handle, along
  the branch that the test takes.
\<close>

lemma Errors_alone:
  "erace (if errch (app w) = None then [ELock 0, ETest 0, EMake 0, EUnlock 0, ERead 0]
          else [ELock 0, ETest 0, EUnlock 0, ERead 0]) (Errors_calls 1 w)
   = Some \<lparr>eshared = snd (Errors w), errchMu = False, ethreads = [EReturned (fst (Errors w))],
           ecrashed = None\<rparr>"
proof (cases "errch (app w)")
  case None
  then show ?thesis
    by (simp add: Errors_def ensureErrorChannel_make Errors_calls_def)
next
  case (Some c)
  then show ?thesis
    by (simp add: Errors_def ensureErrorChannel_def Errors_calls_def)
qed








end
